theory Spec2Isabelle
  imports Complex_Main "HOL-Library.Log_Nat" "HOL-Library.Signed_Division"
begin

section \<open>Values of the host language\<close>

text \<open>
  A JavaScript \<open>number\<close> is an IEEE 754 double: a finite value, one of the two
  infinities, or NaN. Finite values are carried as reals. Every operation that can leave
  the doubles rounds its exact result to the nearest double, ties to the even
  significand: the conversion of a bigint (\<open>Number(b)\<close>, \<open>roundToDouble\<close> below) and the
  arithmetic (\<open>/\<close>, \<open>*\<close>, \<open>+\<close>, \<open>-\<close>, \<open>Math.sqrt\<close>, \<open>roundDouble\<close> below). The sign of
  zero is not represented.

  A \<open>bigint\<close> is an \<open>int\<close>. A string is a list of code units; \<open>char\<close> has the code units
  0..255, so the strings of the model are those whose code units are below 256.
\<close>

datatype number = Num real | Infinity | NegInfinity | NaN

text \<open>
  The errors the two modules raise. Each \<open>throw new Error(message)\<close> of the source is one
  constructor; the four messages of \<open>parseQuantifier\<close> (\<open>expected number after {\<close>,
  \<open>expected }\<close>, \<open>Invalid quantifier bounds\<close>, \<open>Quantifier too large\<close>) share
  \<open>InvalidQuantifier\<close>, and the two messages for groups/alternation and for negated
  classes share \<open>UnsupportedSyntax\<close>. \<open>RangeError\<close> and \<open>SyntaxError\<close> are the built-in
  error classes the runtime raises itself.
\<close>

datatype error =
    InvalidMD5Hex            \<comment> \<open>\<open>Invalid MD5 hex\<close> (the spec's InvalidDigestFormat)\<close>
  | InvalidShardCount        \<comment> \<open>\<open>Invalid shardCount\<close> (the spec's InvalidPartitionCount)\<close>
  | UnsupportedSyntax
  | ExpectedBracket          \<comment> \<open>\<open>Expected [\<close>\<close>
  | EmptyCharClass
  | UnterminatedEscape       \<comment> \<open>\<open>Invalid escape at end of pattern\<close>\<close>
  | InvalidRange char char
  | UnterminatedCharClass
  | InvalidQuantifier
  | DanglingQuantifier char
  | RangeError
  | SyntaxError

subsection \<open>Comparison and rounding of numbers\<close>

text \<open>\<open>Number.isFinite\<close>.\<close>

fun Number_isFinite :: "number \<Rightarrow> bool" where
  "Number_isFinite (Num x) = True"
| "Number_isFinite Infinity = False"
| "Number_isFinite NegInfinity = False"
| "Number_isFinite NaN = False"

text \<open>The relational operators \<open><\<close> and \<open><=\<close> on numbers: false when an operand is NaN.\<close>

fun number_lt :: "number \<Rightarrow> number \<Rightarrow> bool" where
  "number_lt NaN b = False"
| "number_lt a NaN = False"
| "number_lt (Num x) (Num y) = (x < y)"
| "number_lt (Num x) Infinity = True"
| "number_lt (Num x) NegInfinity = False"
| "number_lt Infinity b = False"
| "number_lt NegInfinity (Num y) = True"
| "number_lt NegInfinity Infinity = True"
| "number_lt NegInfinity NegInfinity = False"

definition number_le :: "number \<Rightarrow> number \<Rightarrow> bool" where
  "number_le a b = (a \<noteq> NaN \<and> b \<noteq> NaN \<and> (number_lt a b \<or> a = b))"

definition number_gt :: "number \<Rightarrow> number \<Rightarrow> bool" where
  "number_gt a b = number_lt b a"

definition number_ge :: "number \<Rightarrow> number \<Rightarrow> bool" where
  "number_ge a b = number_le b a"

text \<open>\<open>Math.floor\<close>.\<close>

fun Math_floor :: "number \<Rightarrow> number" where
  "Math_floor (Num x) = Num (of_int \<lfloor>x\<rfloor>)"
| "Math_floor a = a"

text \<open>
  \<open>BigInt(n)\<close> for a number \<open>n\<close>: the integer itself when \<open>n\<close> is an integral finite
  number, a RangeError otherwise.
\<close>

fun BigInt_of_number :: "number \<Rightarrow> error + int" where
  "BigInt_of_number (Num x) = (if of_int \<lfloor>x\<rfloor> = x then Inr \<lfloor>x\<rfloor> else Inl RangeError)"
| "BigInt_of_number a = Inl RangeError"

text \<open>
  \<open>Number(b)\<close> for a bigint \<open>b\<close>: the double nearest to \<open>b\<close>, ties to the even
  significand. \<open>roundToDouble\<close> does this for a magnitude: below \<open>2^53\<close> every integer
  is a double; above, \<open>roundAt e\<close> keeps the 53 leading bits of the magnitude (\<open>q\<close>),
  and the \<open>e\<close> bits cut off (\<open>r\<close>, out of \<open>2^e\<close>) decide whether \<open>q\<close> is incremented. A rounded magnitude of
  \<open>2^1024\<close> or more is an infinity.
\<close>

definition roundAt :: "nat \<Rightarrow> int \<Rightarrow> int" where
  "roundAt e a =
     (let q = a div 2 ^ e;
          r = a mod 2 ^ e;
          half = 2 ^ (e - 1)
      in (if half < r \<or> (r = half \<and> odd q) then q + 1 else q) * 2 ^ e)"

definition roundToDouble :: "int \<Rightarrow> int" where
  "roundToDouble a = (if a < 2 ^ 53 then a else roundAt (nat (bitlen a - 53)) a)"

definition Number_of_bigint :: "int \<Rightarrow> number" where
  "Number_of_bigint b =
     (let v = roundToDouble \<bar>b\<bar>
      in if 2 ^ 1024 \<le> v then (if b < 0 then NegInfinity else Infinity)
         else Num (of_int (sgn b * v)))"

text \<open>
  The rounding of an exact real result to a double. A positive \<open>x\<close> lies in the binade
  \<open>[2^e, 2^(e+1))\<close> with \<open>e = floorLog2 x\<close>, the floor of the binary logarithm, read off
  the bit length of the integer part of \<open>x\<close> or of \<open>1 / x\<close>. There the doubles are the
  multiples of \<open>2^(e-52)\<close>; below \<open>2^(-1022)\<close> (the subnormal numbers) the spacing stays
  \<open>2^(-1074)\<close>. \<open>ulp x\<close> is that spacing, \<open>roundEven\<close> rounds a real to the nearest
  integer, a tie to the even one, and \<open>roundMagnitude x\<close> is the multiple of \<open>ulp x\<close>
  nearest to \<open>x\<close>. \<open>roundFinite\<close> adds the sign; \<open>roundDouble\<close> is the result as a number,
  an infinity when the rounded magnitude reaches \<open>2^1024\<close>. \<open>isDouble x\<close>: the real \<open>x\<close> is
  a double.
\<close>

definition roundEven :: "real \<Rightarrow> int" where
  "roundEven m =
     (let q = \<lfloor>m\<rfloor>;
          r = m - of_int q
      in if 1 / 2 < r \<or> (r = 1 / 2 \<and> odd q) then q + 1 else q)"

definition floorLog2 :: "real \<Rightarrow> int" where
  "floorLog2 x = (if 1 \<le> x then bitlen \<lfloor>x\<rfloor> - 1 else - bitlen (\<lceil>1 / x\<rceil> - 1))"

definition binade :: "real \<Rightarrow> int" where
  "binade x = max (floorLog2 x) (- 1022)"

definition ulp :: "real \<Rightarrow> real" where
  "ulp x = 2 powi (binade x - 52)"

definition roundMagnitude :: "real \<Rightarrow> real" where
  "roundMagnitude x = (if x = 0 then 0 else of_int (roundEven (x / ulp x)) * ulp x)"

definition roundFinite :: "real \<Rightarrow> real" where
  "roundFinite x = sgn x * roundMagnitude \<bar>x\<bar>"

definition roundDouble :: "real \<Rightarrow> number" where
  "roundDouble x =
     (let v = roundFinite x
      in if 2 ^ 1024 \<le> \<bar>v\<bar> then (if x < 0 then NegInfinity else Infinity) else Num v)"


section \<open>kinesis.ts: hash keys and shard indexes\<close>

text \<open>
  \<open>hashKeyToShardIndex\<close> (lines 11-16). \<open>shardCountBigInt\<close> is the local \<open>n\<close> of line 13,
  \<open>BigInt(Math.floor(shardCount))\<close>; the division of bigints truncates toward zero
  (\<open>sdiv\<close>).
\<close>

definition keyspace :: int where
  "keyspace = 2 ^ 128"

definition shardCountBigInt :: "number \<Rightarrow> error + int" where
  "shardCountBigInt shardCount = BigInt_of_number (Math_floor shardCount)"

definition hashKeyToShardIndex :: "int \<Rightarrow> number \<Rightarrow> error + number" where
  "hashKeyToShardIndex hashKey shardCount =
     (if \<not> Number_isFinite shardCount \<or> number_le shardCount (Num 0)
      then Inl InvalidShardCount
      else case shardCountBigInt shardCount of
             Inl e \<Rightarrow> Inl e
           | Inr n \<Rightarrow> Inr (Number_of_bigint ((hashKey * n) sdiv keyspace)))"

text \<open>
  \<open>md5ToBigInt\<close> (lines 3-7). \<open>String.prototype.trim\<close> strips white space and line
  terminators from both ends; with code units below 256 these are TAB, LF, VT, FF, CR,
  SP and NBSP. \<open>toLowerCase\<close> maps \<open>A-Z\<close> and the Latin-1 capitals
  (0xC0-0xDE but the multiplication sign 0xD7) to the code unit 32 above.
\<close>

definition isWhiteSpace :: "char \<Rightarrow> bool" where
  "isWhiteSpace c =
     (let n = (of_char c :: nat)
      in n = 9 \<or> n = 10 \<or> n = 11 \<or> n = 12 \<or> n = 13 \<or> n = 32 \<or> n = 160)"

definition trim :: "string \<Rightarrow> string" where
  "trim s = rev (dropWhile isWhiteSpace (rev (dropWhile isWhiteSpace s)))"

definition lowerChar :: "char \<Rightarrow> char" where
  "lowerChar c =
     (let n = (of_char c :: nat)
      in if (65 \<le> n \<and> n \<le> 90) \<or> (192 \<le> n \<and> n \<le> 222 \<and> n \<noteq> 215)
         then char_of (n + 32) else c)"

definition toLowerCase :: "string \<Rightarrow> string" where
  "toLowerCase s = map lowerChar s"

text \<open>The regular expression \<open>/^[0-9a-f]{32}$/\<close>.\<close>

definition isLowerHex :: "char \<Rightarrow> bool" where
  "isLowerHex c =
     (let n = (of_char c :: nat) in (48 \<le> n \<and> n \<le> 57) \<or> (97 \<le> n \<and> n \<le> 102))"

definition matchesMd5Hex :: "string \<Rightarrow> bool" where
  "matchesMd5Hex s = (length s = 32 \<and> list_all isLowerHex s)"

text \<open>
  \<open>BigInt('0x' + s)\<close>: the runtime strips trailing white space, then reads one or more
  hexadecimal digits of either case, most significant first; anything else is a
  SyntaxError.
\<close>

definition hexDigitValue :: "char \<Rightarrow> int option" where
  "hexDigitValue c =
     (let n = (of_char c :: nat)
      in if 48 \<le> n \<and> n \<le> 57 then Some (int n - 48)
         else if 97 \<le> n \<and> n \<le> 102 then Some (int n - 87)
         else if 65 \<le> n \<and> n \<le> 70 then Some (int n - 55)
         else None)"

fun readHex :: "int \<Rightarrow> string \<Rightarrow> int option" where
  "readHex acc [] = Some acc"
| "readHex acc (c # cs) =
     (case hexDigitValue c of None \<Rightarrow> None | Some d \<Rightarrow> readHex (acc * 16 + d) cs)"

definition BigInt_of_hex :: "string \<Rightarrow> error + int" where
  "BigInt_of_hex s =
     (let t = rev (dropWhile isWhiteSpace (rev s))
      in if t = [] then Inl SyntaxError
         else case readHex 0 t of None \<Rightarrow> Inl SyntaxError | Some v \<Rightarrow> Inr v)"

definition md5ToBigInt :: "string \<Rightarrow> error + int" where
  "md5ToBigInt md5hex =
     (let normalized = toLowerCase (trim md5hex)
      in if \<not> matchesMd5Hex normalized then Inl InvalidMD5Hex
         else BigInt_of_hex normalized)"

section \<open>kinesis.ts: the distribution summary\<close>

text \<open>
  The arithmetic operators on numbers, as far as \<open>summarizeDistribution\<close> uses them. On
  finite operands the exact result is rounded to a double by \<open>roundDouble\<close>; the special
  values follow IEEE 754, a zero divisor counting as positive.
\<close>

fun number_neg :: "number \<Rightarrow> number" where
  "number_neg (Num x) = Num (- x)"
| "number_neg Infinity = NegInfinity"
| "number_neg NegInfinity = Infinity"
| "number_neg NaN = NaN"

fun number_add :: "number \<Rightarrow> number \<Rightarrow> number" where
  "number_add NaN b = NaN"
| "number_add a NaN = NaN"
| "number_add (Num x) (Num y) = roundDouble (x + y)"
| "number_add Infinity NegInfinity = NaN"
| "number_add NegInfinity Infinity = NaN"
| "number_add Infinity b = Infinity"
| "number_add a Infinity = Infinity"
| "number_add NegInfinity b = NegInfinity"
| "number_add a NegInfinity = NegInfinity"

definition number_sub :: "number \<Rightarrow> number \<Rightarrow> number" where
  "number_sub a b = number_add a (number_neg b)"

text \<open>\<open>is_negative a\<close>: the sign of a number that is not NaN.\<close>

fun is_negative :: "number \<Rightarrow> bool" where
  "is_negative (Num x) = (x < 0)"
| "is_negative NegInfinity = True"
| "is_negative a = False"

fun number_mul :: "number \<Rightarrow> number \<Rightarrow> number" where
  "number_mul NaN b = NaN"
| "number_mul a NaN = NaN"
| "number_mul (Num x) (Num y) = roundDouble (x * y)"
| "number_mul a b =
     (if a = Num 0 \<or> b = Num 0 then NaN
      else if is_negative a = is_negative b then Infinity else NegInfinity)"

fun number_div :: "number \<Rightarrow> number \<Rightarrow> number" where
  "number_div NaN b = NaN"
| "number_div a NaN = NaN"
| "number_div (Num x) (Num y) =
     (if y = 0 then (if x = 0 then NaN else if 0 < x then Infinity else NegInfinity)
      else roundDouble (x / y))"
| "number_div (Num x) b = Num 0"
| "number_div a (Num y) = (if is_negative a = is_negative (Num y) then Infinity else NegInfinity)"
| "number_div a b = NaN"

fun Math_sqrt :: "number \<Rightarrow> number" where
  "Math_sqrt (Num x) = (if x < 0 then NaN else roundDouble (sqrt x))"
| "Math_sqrt Infinity = Infinity"
| "Math_sqrt a = NaN"

text \<open>
  Arrays of numbers. An element is \<open>Some v\<close>, or \<open>None\<close> for a hole. \<open>ToLength\<close> is the
  length the runtime reads from \<open>{ length: n }\<close>. \<open>Array.from\<close> constructs the array with
  \<open>new Array(len)\<close> and fills it with the results of the mapping function, here \<open>0\<close>. The
  language makes the construction a RangeError (\<open>Invalid array length\<close>) for a length of
  \<open>2^32\<close> or more; a runtime raises the same error for the shorter lengths it does not
  build, and how long an array it builds is not fixed by the language or by the source.
  That bound is the parameter \<open>capacity\<close>, the greatest length the runtime builds.
  \<open>elemNumber\<close> is \<open>a[i]\<close> read as an operand (\<open>undefined\<close> becomes NaN). \<open>arraySet\<close> is
  \<open>a[i] = v\<close>: an index at or beyond the length extends the array, leaving holes;
  \<open>2^32 - 1\<close> and above are not array indexes, and the assignment leaves the elements as
  they are.
\<close>

fun ToLength :: "number \<Rightarrow> nat" where
  "ToLength (Num x) = (if x \<le> 0 then 0 else min (nat \<lfloor>x\<rfloor>) (2 ^ 53 - 1))"
| "ToLength Infinity = 2 ^ 53 - 1"
| "ToLength NegInfinity = 0"
| "ToLength NaN = 0"

definition Array_from_zeros :: "nat \<Rightarrow> number \<Rightarrow> error + number option list" where
  "Array_from_zeros capacity n =
     (let len = ToLength n
      in if 2 ^ 32 \<le> len \<or> capacity < len then Inl RangeError
         else Inr (replicate len (Some (Num 0))))"

definition elemNumber :: "number option list \<Rightarrow> nat \<Rightarrow> number" where
  "elemNumber xs i =
     (if i < length xs then (case xs ! i of Some v \<Rightarrow> v | None \<Rightarrow> NaN) else NaN)"

definition arraySet :: "number option list \<Rightarrow> nat \<Rightarrow> number \<Rightarrow> number option list" where
  "arraySet xs i v =
     (if i < length xs then xs[i := Some v]
      else if i < 2 ^ 32 - 1 then xs @ replicate (i - length xs) None @ [Some v]
      else xs)"

text \<open>
  \<open>DistributionSummary\<close> (lines 39-47) and \<open>summarizeDistribution\<close> (lines 49-72). The
  shard indexes are integers; \<open>capacity\<close> is the bound of the runtime on the array of
  line 50. \<open>countStep\<close> is the body of the loop of lines 51-53, \<open>maxStep\<close> that of lines
  58-63 on the pair \<open>(maxCount, maxShard)\<close>, \<open>varStep\<close> that of lines 65-68.
\<close>

record DistributionSummary =
  shardCount :: number
  totalKeys :: nat
  counts :: "number option list"
  maxCount :: number
  maxShard :: nat
  avg :: number
  stddev :: number

definition countStep :: "number \<Rightarrow> number option list \<Rightarrow> int \<Rightarrow> number option list" where
  "countStep n cs idx =
     (if 0 \<le> idx \<and> number_lt (Num (of_int idx)) n
      then arraySet cs (nat idx) (number_add (elemNumber cs (nat idx)) (Num 1))
      else cs)"

definition maxStep :: "number option list \<Rightarrow> number \<times> nat \<Rightarrow> nat \<Rightarrow> number \<times> nat" where
  "maxStep cs m i =
     (if number_gt (elemNumber cs i) (fst m) then (elemNumber cs i, i) else m)"

definition varStep :: "number option list \<Rightarrow> number \<Rightarrow> number \<Rightarrow> nat \<Rightarrow> number" where
  "varStep cs mean variance i =
     (let d = number_sub (elemNumber cs i) mean in number_add variance (number_mul d d))"

definition summarizeDistribution ::
    "nat \<Rightarrow> number \<Rightarrow> int list \<Rightarrow> error + DistributionSummary" where
  "summarizeDistribution capacity = (\<lambda>shardCount shardIndexes.
     case Array_from_zeros capacity shardCount of
       Inl e \<Rightarrow> Inl e
     | Inr zeros \<Rightarrow>
         let counts = foldl (countStep shardCount) zeros shardIndexes;
             totalKeys = length shardIndexes;
             avg = number_div (Num (real totalKeys)) shardCount;
             (maxCount, maxShard) = foldl (maxStep counts) (NegInfinity, 0) [0..<length counts];
             variance = foldl (varStep counts avg) (Num 0) [0..<length counts];
             variance = number_div variance shardCount;
             stddev = Math_sqrt variance
         in Inr \<lparr>shardCount = shardCount, totalKeys = totalKeys, counts = counts,
                  maxCount = maxCount, maxShard = maxShard, avg = avg, stddev = stddev\<rparr>)"

section \<open>regexGen.ts: the pattern parser\<close>

text \<open>
  \<open>Atom\<close> and \<open>Piece\<close> (lines 1-12). The fields \<open>min\<close> and \<open>max\<close> of a piece are
  \<open>min_rep\<close> and \<open>max_rep\<close>. A literal's \<open>value\<close> is always a one-character string and is
  carried as that character.
\<close>

datatype Atom = Literal char | CharClass "char list" | Digit | Word | Space

record Piece =
  atom :: Atom
  min_rep :: nat
  max_rep :: nat

text \<open>\<open>pattern[i]\<close>: \<open>undefined\<close> (\<open>None\<close>) at and beyond the length.\<close>

definition charAt :: "string \<Rightarrow> nat \<Rightarrow> char option" where
  "charAt s i = (if i < length s then Some (s ! i) else None)"

definition charCode :: "char \<Rightarrow> nat" where
  "charCode c = of_char c"

definition isDigit :: "char \<Rightarrow> bool" where
  "isDigit c = (charCode (CHR ''0'') \<le> charCode c \<and> charCode c \<le> charCode (CHR ''9''))"

text \<open>\<open>expandRange\<close> (lines 24-31).\<close>

definition expandRange :: "char \<Rightarrow> char \<Rightarrow> error + char list" where
  "expandRange a b =
     (let start = charCode a; stop = charCode b
      in if stop < start then Inl (InvalidRange a b)
         else Inr (map char_of [start..<Suc stop]))"

text \<open>
  \<open>parseCharClass\<close> (lines 33-72): \<open>parseCharClass_loop\<close> is the \<open>while\<close> loop of lines
  42-69 with its cursor \<open>i\<close> and the characters collected so far, followed by the
  \<open>throw\<close> of line 71.
\<close>

function parseCharClass_loop :: "string \<Rightarrow> nat \<Rightarrow> char list \<Rightarrow> error + (char list \<times> nat)" where
  "parseCharClass_loop pattern i chars =
     (if i < length pattern then
        (if pattern ! i = CHR '']'' then
           (if chars = [] then Inl EmptyCharClass else Inr (chars, i + 1))
         else if pattern ! i = CHR 0x5C then
           (if length pattern \<le> i + 1 then Inl UnterminatedEscape
            else parseCharClass_loop pattern (i + 2) (chars @ [pattern ! (i + 1)]))
         else if i + 2 < length pattern \<and> pattern ! (i + 1) = CHR ''-''
                 \<and> pattern ! (i + 2) \<noteq> CHR '']'' then
           (case expandRange (pattern ! i) (pattern ! (i + 2)) of
              Inl e \<Rightarrow> Inl e
            | Inr cs \<Rightarrow> parseCharClass_loop pattern (i + 3) (chars @ cs))
         else parseCharClass_loop pattern (i + 1) (chars @ [pattern ! i]))
      else Inl UnterminatedCharClass)"
  by pat_completeness auto
termination
  by (relation "measure (\<lambda>(pattern, i, chars). length pattern - i)") auto

declare parseCharClass_loop.simps [simp del]

definition parseCharClass :: "string \<Rightarrow> nat \<Rightarrow> error + (char list \<times> nat)" where
  "parseCharClass pattern startIndex =
     (if charAt pattern startIndex \<noteq> Some (CHR ''['') then Inl ExpectedBracket
      else if charAt pattern (startIndex + 1) = Some (CHR ''^'') then Inl UnsupportedSyntax
      else parseCharClass_loop pattern (startIndex + 1) [])"

text \<open>
  \<open>parseQuantifier\<close> (lines 74-113). \<open>scanDigits\<close> is each of the two digit loops (lines
  87-90 and 99-102): it returns the digits read and the cursor after them.
  \<open>Number_of_digits\<close> is \<open>Number(n1)\<close> on a string of decimal digits, its exact value;
  a quantifier is accepted only with both bounds at most 100000, where the value is exact
  as a double too, and every rejection is \<open>InvalidQuantifier\<close>. The result is
  \<open>(min, max, nextIndex)\<close>.
\<close>

function scanDigits :: "string \<Rightarrow> nat \<Rightarrow> string \<Rightarrow> string \<times> nat" where
  "scanDigits pattern i n1 =
     (if i < length pattern \<and> isDigit (pattern ! i)
      then scanDigits pattern (i + 1) (n1 @ [pattern ! i])
      else (n1, i))"
  by pat_completeness auto
termination
  by (relation "measure (\<lambda>(pattern, i, n1). length pattern - i)") auto

declare scanDigits.simps [simp del]

definition Number_of_digits :: "string \<Rightarrow> nat" where
  "Number_of_digits ds = foldl (\<lambda>acc c. acc * 10 + (charCode c - 48)) 0 ds"

definition parseQuantifier :: "string \<Rightarrow> nat \<Rightarrow> error + (nat \<times> nat \<times> nat)" where
  "parseQuantifier pattern startIndex =
     (if length pattern \<le> startIndex then Inr (1, 1, startIndex)
      else
        let ch = pattern ! startIndex in
        if ch = CHR ''?'' then Inr (0, 1, startIndex + 1)
        else if ch = CHR ''+'' then Inr (1, 16, startIndex + 1)
        else if ch = CHR ''*'' then Inr (0, 16, startIndex + 1)
        else if ch \<noteq> CHR ''{'' then Inr (1, 1, startIndex)
        else
          let (n1, i) = scanDigits pattern (startIndex + 1) [] in
          if n1 = [] then Inl InvalidQuantifier
          else
            let mn = Number_of_digits n1;
                (mx, j) =
                  (if charAt pattern i = Some (CHR '','') then
                     let (n2, k) = scanDigits pattern (i + 1) []
                     in (if n2 = [] then mn + 16 else Number_of_digits n2, k)
                   else (mn, i))
            in
              if charAt pattern j \<noteq> Some (CHR ''}'') then Inl InvalidQuantifier
              else if mx < mn then Inl InvalidQuantifier
              else if 100000 < mx then Inl InvalidQuantifier
              else Inr (mn, mx, j + 1))"

text \<open>
  The parsing half of \<open>generateFromRegexLikePattern\<close> (lines 115-157), the spec's
  \<open>compile\<close>. \<open>parseAtom\<close> is the chain of lines 133-151, entered with \<open>i\<close> inside the
  pattern; \<open>compile_loop\<close> is the \<open>while\<close> loop of lines 123-157.
\<close>

definition parseAtom :: "string \<Rightarrow> nat \<Rightarrow> error + (Atom \<times> nat)" where
  "parseAtom pattern i =
     (let ch = pattern ! i in
      if ch = CHR ''['' then
        (case parseCharClass pattern i of
           Inl e \<Rightarrow> Inl e
         | Inr (chars, nextIndex) \<Rightarrow> Inr (CharClass chars, nextIndex))
      else if ch = CHR 0x5C then
        (if length pattern \<le> i + 1 then Inl UnterminatedEscape
         else
           let esc = pattern ! (i + 1) in
           Inr (if esc = CHR ''d'' then Digit
                else if esc = CHR ''w'' then Word
                else if esc = CHR ''s'' then Space
                else Literal esc, i + 2))
      else if ch = CHR ''{'' \<or> ch = CHR ''}'' \<or> ch = CHR ''?'' \<or> ch = CHR ''+'' \<or> ch = CHR ''*''
        then Inl (DanglingQuantifier ch)
      else Inr (Literal ch, i + 1))"

lemma scanDigits_index: "scanDigits pattern i n1 = (n2, j) \<Longrightarrow> i \<le> j"
proof (induction pattern i n1 rule: scanDigits.induct)
  case (1 pattern i n1)
  show ?case
  proof (cases "i < length pattern \<and> isDigit (pattern ! i)")
    case True
    with "1.prems" have "scanDigits pattern (i + 1) (n1 @ [pattern ! i]) = (n2, j)"
      by (simp add: scanDigits.simps [of pattern i])
    with "1.IH" True show ?thesis by fastforce
  next
    case False
    with "1.prems" show ?thesis by (simp add: scanDigits.simps [of pattern i])
  qed
qed

lemma parseCharClass_loop_index:
  "parseCharClass_loop pattern i chars = Inr (cs, j) \<Longrightarrow> i < j"
proof (induction pattern i chars rule: parseCharClass_loop.induct)
  case (1 pattern i chars)
  note unfold = parseCharClass_loop.simps [of pattern i chars]
  show ?case
  proof (cases "i < length pattern")
    case False
    with "1.prems" show ?thesis by (simp add: unfold)
  next
    case inside: True
    show ?thesis
    proof (cases "pattern ! i = CHR '']''")
      case True
      with "1.prems" inside show ?thesis by (simp add: unfold split: if_splits)
    next
      case notclose: False
      show ?thesis
      proof (cases "pattern ! i = CHR 0x5C")
        case True
        with "1.prems" inside notclose
        have "\<not> length pattern \<le> i + 1"
          and "parseCharClass_loop pattern (i + 2) (chars @ [pattern ! (i + 1)]) = Inr (cs, j)"
          by (simp_all add: unfold split: if_splits)
        with "1.IH"(1) [OF inside notclose True] show ?thesis by fastforce
      next
        case notesc: False
        show ?thesis
        proof (cases "i + 2 < length pattern \<and> pattern ! (i + 1) = CHR ''-''
                 \<and> pattern ! (i + 2) \<noteq> CHR '']''")
          case True
          with "1.prems" inside notclose notesc
          obtain xs where xs: "expandRange (pattern ! i) (pattern ! (i + 2)) = Inr xs"
            and "parseCharClass_loop pattern (i + 3) (chars @ xs) = Inr (cs, j)"
            by (simp add: unfold split: sum.splits)
          with "1.IH"(2) [OF inside notclose notesc True xs] show ?thesis by fastforce
        next
          case False
          with "1.prems" inside notclose notesc
          have "parseCharClass_loop pattern (i + 1) (chars @ [pattern ! i]) = Inr (cs, j)"
            by (auto simp add: unfold split: if_splits)
          with "1.IH"(3) [OF inside notclose notesc False] show ?thesis by fastforce
        qed
      qed
    qed
  qed
qed

lemma parseAtom_index: "parseAtom pattern i = Inr (a, j) \<Longrightarrow> i < j"
  by (auto simp: parseAtom_def parseCharClass_def Let_def
           split: if_splits sum.splits prod.splits dest: parseCharClass_loop_index)

lemma parseQuantifier_index: "parseQuantifier pattern i = Inr (mn, mx, j) \<Longrightarrow> i \<le> j"
  by (auto simp: parseQuantifier_def Let_def
           split: if_splits prod.splits dest!: scanDigits_index)

function compile_loop :: "string \<Rightarrow> nat \<Rightarrow> Piece list \<Rightarrow> error + Piece list" where
  "compile_loop pattern i pieces =
     (if i < length pattern then
        (if pattern ! i = CHR ''^'' \<or> pattern ! i = CHR ''$'' then
           compile_loop pattern (i + 1) pieces
         else
           (case parseAtom pattern i of
              Inl e \<Rightarrow> Inl e
            | Inr (a, i') \<Rightarrow>
                (case parseQuantifier pattern i' of
                   Inl e \<Rightarrow> Inl e
                 | Inr (mn, mx, i'') \<Rightarrow>
                     compile_loop pattern i''
                       (pieces @ [\<lparr>atom = a, min_rep = mn, max_rep = mx\<rparr>]))))
      else Inr pieces)"
  by pat_completeness auto

termination
  by (relation "measure (\<lambda>(pattern, i, pieces). length pattern - i)")
     (auto dest!: parseAtom_index parseQuantifier_index)

declare compile_loop.simps [simp del]

definition compile :: "string \<Rightarrow> error + Piece list" where
  "compile pattern =
     (if CHR ''('' \<in> set pattern \<or> CHR '')'' \<in> set pattern \<or> CHR ''|'' \<in> set pattern
      then Inl UnsupportedSyntax
      else compile_loop pattern 0 [])"

section \<open>regexGen.ts: the generator\<close>

text \<open>
  \<open>Math.random()\<close> is an explicit source: \<open>random k\<close> is the value of the \<open>k\<close>-th call,
  which the runtime takes from the doubles in \<open>[0, 1)\<close>, and every function that draws
  returns the number of calls made so far. \<open>randInt\<close> (lines 16-20) is only called with
  integers, where \<open>Math.ceil\<close> and \<open>Math.floor\<close> of the bounds are the bounds: a
  repetition count of at most \<open>100000\<close>, or \<open>0\<close> and the last index of an array. The
  product \<open>Math.random() * (hi - lo + 1)\<close> is rounded to the nearest double before
  \<open>Math.floor\<close> is taken; with such bounds it stays far below \<open>2^1024\<close>, so its overflow
  to an infinity is not represented, and \<open>hi - lo + 1\<close> and the final sum are integers
  below \<open>2^53\<close>, on which the arithmetic is exact. \<open>pick\<close> (line 22) reads the array at
  the drawn index: \<open>None\<close> is \<open>undefined\<close>, which \<open>out += ...\<close> appends as the text
  \<open>undefined\<close>.
\<close>

definition randInt :: "(nat \<Rightarrow> real) \<Rightarrow> nat \<Rightarrow> int \<Rightarrow> int \<Rightarrow> int \<times> nat" where
  "randInt random k mn mx =
     (let lo = mn; hi = mx
      in (lo + \<lfloor>roundFinite (random k * of_int (hi - lo + 1))\<rfloor>, Suc k))"

definition pick :: "(nat \<Rightarrow> real) \<Rightarrow> nat \<Rightarrow> 'a list \<Rightarrow> 'a option \<times> nat" where
  "pick random k arr =
     (let (j, k') = randInt random k 0 (int (length arr) - 1)
      in (if 0 \<le> j \<and> nat j < length arr then Some (arr ! nat j) else None, k'))"


definition digits :: "char list" where
  "digits = ''0123456789''"














lemmas parser_defs = compile_def parseAtom_def parseCharClass_def parseQuantifier_def
  expandRange_def charAt_def charCode_def isDigit_def Number_of_digits_def

section \<open>The specification's notions\<close>

text \<open>
  The value of a string of hexadecimal digits as a base-16 numeral, in the words of the
  specification: the digit at position \<open>i\<close> (from the left) of \<open>n\<close> digits weighs
  \<open>16 ^ (n - 1 - i)\<close>, and a digit is worth its position in \<open>0123456789abcdef\<close>.
\<close>

definition base16_digit :: "char \<Rightarrow> int" where
  "base16_digit c = int (length (takeWhile (\<lambda>d. d \<noteq> c) ''0123456789abcdef''))"

definition base16_value :: "string \<Rightarrow> int" where
  "base16_value s = (\<Sum>i<length s. base16_digit (s ! i) * 16 ^ (length s - 1 - i))"


text \<open>
  Arrays whose elements are all counts: \<open>countArray ns\<close> is the array of the naturals
  \<open>ns\<close>, and \<open>bump k\<close> is the counting step on the naturals, one more in bucket \<open>idx\<close>
  when \<open>idx\<close> lies in \<open>[0, k)\<close>.
\<close>

definition countArray :: "nat list \<Rightarrow> number option list" where
  "countArray ns = map (\<lambda>c. Some (Num (real c))) ns"

definition bump :: "int \<Rightarrow> nat list \<Rightarrow> int \<Rightarrow> nat list" where
  "bump k ns idx = (if 0 \<le> idx \<and> idx < k then ns[nat idx := Suc (ns ! nat idx)] else ns)"

section \<open>Lemmas\<close>

subsection \<open>Rounding to a double\<close>

lemma roundEven_of_int: "roundEven (of_int z) = z"
  by (simp add: roundEven_def)


lemma roundEven_nonneg: "0 \<le> m \<Longrightarrow> 0 \<le> roundEven m"
  by (simp add: roundEven_def Let_def)

lemma roundEven_near: "\<bar>of_int (roundEven m) - m\<bar> \<le> 1 / 2"
  unfolding roundEven_def Let_def by (auto; linarith)

lemma pow2_pos: "0 < (2::real) powi e"
  by simp

lemma floorLog2_bounds:
  assumes "0 < x"
  shows "2 powi (floorLog2 x) \<le> x \<and> x < 2 powi (floorLog2 x + 1)"
proof (cases "1 \<le> x")
  case True
  define N where "N = \<lfloor>x\<rfloor>"
  have N: "1 \<le> N" using True by (simp add: N_def le_floor_iff)
  then have pos: "0 < N" by simp
  have "1 \<le> bitlen N" using pos by (simp add: bitlen_alt_def)
  then have "0 \<le> bitlen N - 1" by simp
  then obtain n where n: "bitlen N - 1 = int n" by (rule nonneg_int_cases)
  then have nat: "nat (bitlen N - 1) = n" "nat (bitlen N) = Suc n" by simp_all
  from bitlen_bounds [OF pos] have b: "2 ^ n \<le> N" "N < 2 ^ Suc n"
    by (simp_all only: nat)
  have fl: "floorLog2 x = int n"
    using True by (simp add: floorLog2_def n flip: N_def)
  have "(2::real) ^ n = real_of_int (2 ^ n)" by simp
  also have "\<dots> \<le> real_of_int N" using b(1) by (simp only: of_int_le_iff)
  also have "\<dots> \<le> x" by (simp add: N_def)
  finally have lo: "2 ^ n \<le> x" .
  have "N + 1 \<le> 2 ^ Suc n" using b(2) by simp
  then have "real_of_int (N + 1) \<le> real_of_int (2 ^ Suc n)" by (simp only: of_int_le_iff)
  also have "\<dots> = 2 ^ Suc n" by simp
  finally have "real_of_int (N + 1) \<le> 2 ^ Suc n" .
  moreover have "x < real_of_int (N + 1)" by (simp add: N_def)
  ultimately have hi: "x < 2 ^ Suc n" by (rule less_le_trans [rotated])
  have "(2::real) powi (int n + 1) = 2 ^ Suc n"
    using power_int_of_nat [of "2::real" "Suc n"] by (simp add: add.commute)
  with lo hi show ?thesis by (simp add: fl)
next
  case False
  define y where "y = 1 / x"
  have y: "1 < y" using False assms by (simp add: y_def)
  define M where "M = \<lceil>y\<rceil> - 1"
  have "1 < \<lceil>y\<rceil>" using y by (simp add: less_ceiling_iff)
  then have pos: "0 < M" by (simp add: M_def)
  have "1 \<le> bitlen M" using pos by (simp add: bitlen_alt_def)
  then have "0 \<le> bitlen M - 1" by simp
  then obtain n where n: "bitlen M - 1 = int n" by (rule nonneg_int_cases)
  then have nat: "nat (bitlen M - 1) = n" "nat (bitlen M) = Suc n" by simp_all
  from bitlen_bounds [OF pos] have b: "2 ^ n \<le> M" "M < 2 ^ Suc n"
    by (simp_all only: nat)
  have fl: "floorLog2 x = - int (Suc n)"
    using False n by (simp add: floorLog2_def flip: y_def M_def)
  have "M + 1 \<le> 2 ^ Suc n" using b(2) by simp
  then have "real_of_int (M + 1) \<le> real_of_int (2 ^ Suc n)" by (simp only: of_int_le_iff)
  also have "\<dots> = 2 ^ Suc n" by simp
  finally have "real_of_int (M + 1) \<le> 2 ^ Suc n" .
  moreover have "y \<le> real_of_int (M + 1)" by (simp add: M_def)
  ultimately have "y \<le> 2 ^ Suc n" by (rule order_trans [rotated])
  then have "1 / 2 ^ Suc n \<le> x"
    using assms by (simp add: y_def field_simps)
  then have lo: "2 powi (- int (Suc n)) \<le> x"
    by (simp only: power_int_minus power_int_of_nat inverse_eq_divide)
  have "(2::real) ^ n = real_of_int (2 ^ n)" by simp
  also have "\<dots> \<le> real_of_int M" using b(1) by (simp only: of_int_le_iff)
  also have "\<dots> < y" unfolding M_def by linarith
  finally have "2 ^ n < y" .
  then have "x < 1 / 2 ^ n"
    using assms by (simp add: y_def field_simps)
  then have "x < 2 powi (- int n)"
    by (simp only: power_int_minus power_int_of_nat inverse_eq_divide)
  moreover have "- int (Suc n) + 1 = - int n" by simp
  ultimately have hi: "x < 2 powi (- int (Suc n) + 1)" by (simp only:)
  from lo hi show ?thesis by (simp only: fl)
qed

lemma pow2_less_imp: "(2::real) powi a < 2 powi b \<Longrightarrow> a < b"
proof (rule ccontr)
  assume lt: "(2::real) powi a < 2 powi b" and "\<not> a < b"
  then have "(2::real) powi b \<le> 2 powi a"
    by (intro power_int_increasing) simp_all
  with lt show False by simp
qed

lemma binade_cases: "0 < x \<Longrightarrow> 2 powi (binade x) \<le> x \<or> binade x = - 1022"
  using floorLog2_bounds [of x] by (auto simp add: binade_def max_def)

lemma binade_le: "0 < x \<Longrightarrow> x < 2 powi (e + 1) \<Longrightarrow> - 1022 \<le> e \<Longrightarrow> binade x \<le> e"
proof -
  assume x: "0 < x" and b: "x < 2 powi (e + 1)" and e: "- 1022 \<le> e"
  from floorLog2_bounds [OF x] b have "(2::real) powi (floorLog2 x) < 2 powi (e + 1)" by simp
  then have "floorLog2 x < e + 1" by (rule pow2_less_imp)
  then show ?thesis using e by (simp add: binade_def)
qed

lemma binade_eq: "2 powi e \<le> x \<Longrightarrow> x < 2 powi (e + 1) \<Longrightarrow> - 1022 \<le> e \<Longrightarrow> binade x = e"
proof -
  assume a: "2 powi e \<le> x" and b: "x < 2 powi (e + 1)" and e: "- 1022 \<le> e"
  have "(0::real) < 2 powi e" by simp
  with a have x: "0 < x" by linarith
  from floorLog2_bounds [OF x] b have "(2::real) powi (floorLog2 x) < 2 powi (e + 1)" by simp
  then have up: "floorLog2 x < e + 1" by (rule pow2_less_imp)
  from floorLog2_bounds [OF x] a have "(2::real) powi e < 2 powi (floorLog2 x + 1)" by simp
  then have "e < floorLog2 x + 1" by (rule pow2_less_imp)
  with up have "floorLog2 x = e" by simp
  then show ?thesis using e by (simp add: binade_def)
qed

lemma floorLog2_log: "0 < x \<Longrightarrow> floorLog2 x = \<lfloor>log 2 x\<rfloor>"
proof -
  assume x: "0 < x"
  from floorLog2_bounds [OF x]
  have "2 powr (of_int (floorLog2 x)) \<le> x" "x < 2 powr (of_int (floorLog2 x) + 1)"
    using powr_real_of_int' [of 2 "floorLog2 x"] powr_real_of_int' [of 2 "floorLog2 x + 1"]
    by simp_all
  then show ?thesis
    using floor_log_eq_powr_iff [of x 2 "floorLog2 x"] x by simp
qed

lemma ulp_pos: "0 < ulp x"
  by (simp add: ulp_def)

lemma roundMagnitude_representable:
  assumes "0 < M" "M < 2 ^ 53" "- 1074 \<le> e"
  shows "roundMagnitude (of_int M * 2 powi e) = of_int M * 2 powi e"
proof -
  define x :: real where "x = of_int M * 2 powi e"
  have x: "0 < x" using assms(1) by (simp add: x_def)
  have "real_of_int M < 2 ^ 53" using assms(2) by (metis of_int_less_iff of_int_numeral of_int_power)
  then have "x < 2 ^ 53 * 2 powi e"
    unfolding x_def by (intro mult_strict_right_mono) simp_all
  also have "\<dots> = 2 powi (e + 52 + 1)"
    by (simp add: power_int_add)
  finally have "binade x \<le> e + 52"
    using x assms(3) by (intro binade_le) simp_all
  then have "0 \<le> e - (binade x - 52)" by simp
  then obtain d where "e - (binade x - 52) = int d" by (rule nonneg_int_cases)
  then have d: "e = binade x - 52 + int d" by simp
  have "x / ulp x = of_int M * (2 powi e / 2 powi (binade x - 52))"
    by (simp add: x_def ulp_def)
  also have "2 powi e / 2 powi (binade x - 52) = (2::real) ^ d"
    by (subst d) (simp add: power_int_add)
  finally have q: "x / ulp x = of_int (M * 2 ^ d)" by simp
  have "roundMagnitude x = of_int (M * 2 ^ d) * ulp x"
    using x by (simp add: roundMagnitude_def q roundEven_of_int del: of_int_mult of_int_power)
  also have "\<dots> = x / ulp x * ulp x" by (simp only: q)
  also have "\<dots> = x" using ulp_pos [of x] by simp
  finally show ?thesis by (simp only: x_def)
qed

lemma roundMagnitude_nonneg: "0 \<le> x \<Longrightarrow> 0 \<le> roundMagnitude x"
  using ulp_pos [of x] by (simp add: roundMagnitude_def roundEven_nonneg)



lemma roundFinite_nonneg: "0 \<le> x \<Longrightarrow> roundFinite x = roundMagnitude x"
  by (cases "x = 0") (simp_all add: roundFinite_def roundMagnitude_def)

lemma roundDouble_representable:
  assumes "0 < M" "M < 2 ^ 53" "- 1074 \<le> e" "of_int M * 2 powi e < (2::real) ^ 1024"
  shows "roundDouble (of_int M * 2 powi e) = Num (of_int M * 2 powi e)"
proof -
  have pos: "0 \<le> real_of_int M * 2 powi e" using assms(1) by simp
  have "roundFinite (of_int M * 2 powi e) = of_int M * 2 powi e"
    using roundMagnitude_representable [OF assms(1-3)] pos by (simp only: roundFinite_nonneg)
  moreover have "\<bar>real_of_int M * 2 powi e\<bar> = real_of_int M * 2 powi e"
    using pos by simp
  ultimately show ?thesis
    using assms(4) by (simp add: roundDouble_def Let_def)
qed

lemma roundDouble_zero: "roundDouble 0 = Num 0"
  by (simp add: roundDouble_def roundFinite_def)

lemma roundDouble_of_nat:
  assumes "n < 2 ^ 53"
  shows "roundDouble (real n) = Num (real n)"
proof (cases "n = 0")
  case True
  then show ?thesis by (simp add: roundDouble_zero)
next
  case False
  have lt: "int n < 2 ^ 53" using assms by (metis of_nat_less_iff of_nat_numeral of_nat_power)
  then have "real_of_int (int n) < 2 ^ 53" by (metis of_int_less_iff of_int_numeral of_int_power)
  also have "\<dots> < (2::real) ^ 1024" by (rule power_strict_increasing) simp_all
  finally have "real_of_int (int n) * 2 powi 0 < 2 ^ 1024" by simp
  from roundDouble_representable [OF _ lt _ this] False show ?thesis by simp
qed

lemma roundDouble_numeral:
  "numeral w < (2::nat) ^ 53 \<Longrightarrow> roundDouble (numeral w) = Num (numeral w)"
  using roundDouble_of_nat [of "numeral w"] by simp

lemma roundDouble_one: "roundDouble 1 = Num 1"
  using roundDouble_of_nat [of 1] by simp



lemma roundMagnitude_near:
  assumes "2 powi (- 1022) \<le> x"
  shows "\<bar>roundMagnitude x - x\<bar> \<le> x / 2 ^ 53"
proof -
  have x: "0 < x" using assms pow2_pos [of "- 1022"] by linarith
  have low: "2 powi (binade x) \<le> x"
    using binade_cases [OF x] assms by auto
  have "\<bar>of_int (roundEven (x / ulp x)) - x / ulp x\<bar> * ulp x \<le> 1 / 2 * ulp x"
    using roundEven_near [of "x / ulp x"] ulp_pos [of x] by (intro mult_right_mono) simp_all
  moreover have "\<bar>of_int (roundEven (x / ulp x)) - x / ulp x\<bar> * ulp x
      = \<bar>of_int (roundEven (x / ulp x)) * ulp x - x\<bar>"
  proof -
    have "\<bar>of_int (roundEven (x / ulp x)) - x / ulp x\<bar> * ulp x
        = \<bar>(of_int (roundEven (x / ulp x)) - x / ulp x) * ulp x\<bar>"
      using ulp_pos [of x] by (simp add: abs_mult)
    also have "(of_int (roundEven (x / ulp x)) - x / ulp x) * ulp x
        = of_int (roundEven (x / ulp x)) * ulp x - x"
      using ulp_pos [of x] by (simp add: left_diff_distrib)
    finally show ?thesis .
  qed
  moreover have "1 / 2 * ulp x = 2 powi (binade x) / 2 ^ 53"
    by (simp add: ulp_def power_int_diff)
  moreover have "2 powi (binade x) / 2 ^ 53 \<le> x / 2 ^ 53"
    using low by (simp add: divide_right_mono)
  ultimately show ?thesis
    using x by (simp add: roundMagnitude_def)
qed

lemma roundDouble_near:
  assumes "2 powi (- 1022) \<le> x" "x \<le> 2 ^ 1023"
  shows "\<exists>a. roundDouble x = Num a \<and> \<bar>a - x\<bar> \<le> x / 2 ^ 53"
proof -
  have x: "0 < x" using assms pow2_pos [of "- 1022"] by linarith
  have near: "\<bar>roundMagnitude x - x\<bar> \<le> x / 2 ^ 53"
    using assms(1) by (rule roundMagnitude_near)
  have "x / 2 ^ 53 < x" using x by (simp add: field_simps)
  with near have "roundMagnitude x < 2 * x" by linarith
  also have "\<dots> \<le> 2 * 2 ^ 1023" using assms(2) by simp
  finally have fin: "roundMagnitude x < 2 ^ 1024" by simp
  have "0 \<le> roundMagnitude x" using x by (intro roundMagnitude_nonneg) simp
  with fin have "roundDouble x = Num (roundMagnitude x)"
    using x by (simp add: roundDouble_def Let_def roundFinite_nonneg)
  with near show ?thesis by blast
qed

lemma binade_third: "binade (1 / 3) = - 2"
  by (intro binade_eq) (simp_all add: power_int_minus)

lemma roundDouble_third: "roundDouble (1 / 3) = Num (6004799503160661 / 2 ^ 54)"
  by (simp add: roundDouble_def roundFinite_def roundMagnitude_def ulp_def binade_third
      roundEven_def Let_def power_int_minus)

subsection \<open>Rounding of bigints to numbers, and the shard index\<close>

lemma roundToDouble_small: "a < 2 ^ 53 \<Longrightarrow> roundToDouble a = a"
  by (simp add: roundToDouble_def)

lemma roundAt_lower: "(a div 2 ^ e) * 2 ^ e \<le> roundAt e a"
  by (simp add: roundAt_def Let_def)

lemma roundAt_upper: "roundAt e a \<le> (a div 2 ^ e + 1) * 2 ^ e"
  by (simp add: roundAt_def Let_def)

lemma roundAt_mono:
  assumes "a \<le> b"
  shows "roundAt e a \<le> roundAt e b"
proof -
  have qle: "a div 2 ^ e \<le> b div 2 ^ e"
    using assms by (simp add: zdiv_mono1)
  show ?thesis
  proof (cases "a div 2 ^ e = b div 2 ^ e")
    case True
    have "a mod 2 ^ e \<le> b mod 2 ^ e"
    proof -
      have "a = (a div 2 ^ e) * 2 ^ e + a mod 2 ^ e"
        using div_mult_mod_eq [of a "2 ^ e"] by linarith
      moreover have "b = (a div 2 ^ e) * 2 ^ e + b mod 2 ^ e"
        using div_mult_mod_eq [of b "2 ^ e"] True by simp
      ultimately show ?thesis using assms by linarith
    qed
    then show ?thesis
      using True by (auto simp add: roundAt_def Let_def)
  next
    case False
    then have "a div 2 ^ e + 1 \<le> b div 2 ^ e" using qle by linarith
    then have "(a div 2 ^ e + 1) * 2 ^ e \<le> (b div 2 ^ e) * (2 ^ e :: int)"
      by (simp add: mult_right_mono)
    then show ?thesis
      using roundAt_upper [of e a] roundAt_lower [of b e] by linarith
  qed
qed

lemma bitlen_mono: "a \<le> b \<Longrightarrow> bitlen a \<le> bitlen b"
  by (simp add: bitlen_def floorlog_mono nat_mono)

lemma bitlen_large: "2 ^ 53 \<le> a \<Longrightarrow> 54 \<le> bitlen a"
  using bitlen_ge_iff_power [of 54 a] by simp

lemma roundAt_bitlen_bounds:
  assumes "2 ^ 53 \<le> a"
  shows "2 ^ nat (bitlen a - 1) \<le> roundAt (nat (bitlen a - 53)) a"
    and "roundAt (nat (bitlen a - 53)) a \<le> 2 ^ nat (bitlen a)"
proof -
  define L where "L = nat (bitlen a)"
  define e where "e = nat (bitlen a - 53)"
  have L54: "54 \<le> bitlen a" using assms by (rule bitlen_large)
  have apos: "0 < a" using assms by (smt (verit) zero_less_power)
  have Le: "L = 53 + e" "nat (bitlen a - 1) = 52 + e"
    using L54 by (simp_all add: L_def e_def)
  have lo: "2 ^ (52 + e) \<le> a" and hi: "a < 2 ^ (53 + e)"
    using bitlen_bounds [OF apos] Le by (simp_all add: L_def)
  have "2 ^ 52 \<le> a div 2 ^ e"
  proof -
    have "(2 ^ 52 :: int) = (2 ^ 52 * 2 ^ e) div 2 ^ e" by simp
    also have "\<dots> \<le> a div 2 ^ e"
      using lo by (intro zdiv_mono1) (simp_all add: power_add)
    finally show ?thesis .
  qed
  then have "2 ^ 52 * 2 ^ e \<le> (a div 2 ^ e) * (2 ^ e :: int)"
    by (simp add: mult_right_mono)
  then have "2 ^ (52 + e) \<le> roundAt e a"
    using roundAt_lower [of a e] unfolding power_add by linarith
  then show "2 ^ nat (bitlen a - 1) \<le> roundAt (nat (bitlen a - 53)) a"
    using Le(2) by (simp only: e_def)
  have "a div 2 ^ e < 2 ^ 53"
  proof (rule ccontr)
    assume "\<not> a div 2 ^ e < 2 ^ 53"
    then have "2 ^ 53 * 2 ^ e \<le> (a div 2 ^ e) * (2 ^ e :: int)"
      by (simp add: mult_right_mono)
    moreover have "0 \<le> a mod 2 ^ e" by simp
    ultimately have "2 ^ 53 * 2 ^ e \<le> a"
      using div_mult_mod_eq [of a "2 ^ e"] by linarith
    then show False using hi unfolding power_add by linarith
  qed
  then have "a div 2 ^ e + 1 \<le> 2 ^ 53" by simp
  then have "(a div 2 ^ e + 1) * 2 ^ e \<le> 2 ^ 53 * (2 ^ e :: int)"
    by (simp add: mult_right_mono)
  then have "roundAt e a \<le> 2 ^ (53 + e)"
    using roundAt_upper [of e a] unfolding power_add by linarith
  then show "roundAt (nat (bitlen a - 53)) a \<le> 2 ^ nat (bitlen a)"
    using Le(1) by (simp only: e_def L_def)
qed

lemma roundToDouble_mono:
  assumes "a \<le> b"
  shows "roundToDouble a \<le> roundToDouble b"
proof (cases "b < 2 ^ 53")
  case True
  then show ?thesis using assms by (simp add: roundToDouble_def)
next
  case bbig: False
  then have b53: "2 ^ 53 \<le> b" by simp
  have Lb: "54 \<le> bitlen b" using b53 by (rule bitlen_large)
  have "(2::int) ^ 53 \<le> 2 ^ nat (bitlen b - 1)"
    using Lb by (intro power_increasing) simp_all
  then have "2 ^ 53 \<le> roundAt (nat (bitlen b - 53)) b"
    using roundAt_bitlen_bounds(1) [OF b53] by linarith
  then have b_lower: "2 ^ 53 \<le> roundToDouble b"
    using bbig by (simp add: roundToDouble_def)
  show ?thesis
  proof (cases "a < 2 ^ 53")
    case True
    then show ?thesis using b_lower by (simp add: roundToDouble_def)
  next
    case abig: False
    then have a53: "2 ^ 53 \<le> a" by simp
    have LaLb: "bitlen a \<le> bitlen b" using assms by (rule bitlen_mono)
    show ?thesis
    proof (cases "bitlen a = bitlen b")
      case True
      then show ?thesis
        using abig bbig roundAt_mono [OF assms] by (simp add: roundToDouble_def)
    next
      case False
      then have "nat (bitlen a) \<le> nat (bitlen b - 1)" using LaLb Lb by simp
      then have "(2::int) ^ nat (bitlen a) \<le> 2 ^ nat (bitlen b - 1)"
        by (intro power_increasing) simp_all
      then have "roundAt (nat (bitlen a - 53)) a \<le> roundAt (nat (bitlen b - 53)) b"
        using roundAt_bitlen_bounds(2) [OF a53] roundAt_bitlen_bounds(1) [OF b53]
        by linarith
      then show ?thesis
        using abig bbig by (simp add: roundToDouble_def)
    qed
  qed
qed

lemma Number_of_bigint_small: "0 \<le> b \<Longrightarrow> b < 2 ^ 53 \<Longrightarrow> Number_of_bigint b = Num (of_int b)"
  by (simp add: Number_of_bigint_def roundToDouble_small Let_def sgn_if)

lemma Number_of_bigint_mono:
  assumes "0 \<le> a" "a \<le> b"
  shows "number_le (Number_of_bigint a) (Number_of_bigint b)"
proof -
  have "roundToDouble \<bar>a\<bar> \<le> roundToDouble \<bar>b\<bar>"
    using assms by (intro roundToDouble_mono) simp
  moreover have "sgn a * roundToDouble \<bar>a\<bar> = roundToDouble \<bar>a\<bar>"
    using assms(1) by (simp add: roundToDouble_def sgn_if)
  moreover have "sgn b * roundToDouble \<bar>b\<bar> = roundToDouble \<bar>b\<bar>"
    using assms by (simp add: roundToDouble_def sgn_if)
  ultimately show ?thesis
    using assms by (auto simp add: Number_of_bigint_def Let_def number_le_def)
qed

lemma sdiv_nonneg: "0 \<le> a \<Longrightarrow> 0 < b \<Longrightarrow> a sdiv b = a div (b::int)"
  by (simp add: signed_divide_int_def sgn_if)

lemma shardCountBigInt_Num: "shardCountBigInt (Num x) = Inr \<lfloor>x\<rfloor>"
  by (simp add: shardCountBigInt_def)

lemma hashKeyToShardIndex_Num:
  "0 < x \<Longrightarrow> hashKeyToShardIndex h (Num x) = Inr (Number_of_bigint ((h * \<lfloor>x\<rfloor>) sdiv 2 ^ 128))"
  by (simp add: hashKeyToShardIndex_def shardCountBigInt_Num number_le_def keyspace_def)

lemma int_div_eqI: "0 \<le> r \<Longrightarrow> r < b \<Longrightarrow> a = q * b + r \<Longrightarrow> a div b = (q::int)"
  by simp

lemma int_div_less_bound:
  assumes "a < p * K" "0 < K"
  shows "a div K < (p::int)"
proof (rule ccontr)
  assume "\<not> a div K < p"
  then have "p * K \<le> (a div K) * K"
    using assms(2) by (simp add: mult_right_mono)
  moreover have "0 \<le> a mod K" using assms(2) by simp
  ultimately show False
    using div_mult_mod_eq [of a K] assms(1) by linarith
qed

lemma floor_quotient_keyspace: "\<lfloor>real_of_int a / 2 ^ 128\<rfloor> = a div 2 ^ 128"
  using floor_divide_of_int_eq [of a "2 ^ 128"] by simp

lemma shard_index_bounds:
  fixes h p :: int
  assumes "0 \<le> h" "h \<le> 2 ^ 128 - 1" "1 \<le> p"
  shows "0 \<le> (h * p) div 2 ^ 128" and "(h * p) div 2 ^ 128 \<le> p - 1"
proof -
  show "0 \<le> (h * p) div 2 ^ 128"
    using assms by (simp add: pos_imp_zdiv_nonneg_iff)
  have "h * p \<le> (2 ^ 128 - 1) * p"
    using assms by (intro mult_right_mono) simp_all
  also have "\<dots> < p * 2 ^ 128"
    using assms(3) by (simp add: algebra_simps)
  finally have "(h * p) div 2 ^ 128 < p"
    by (intro int_div_less_bound) simp_all
  then show "(h * p) div 2 ^ 128 \<le> p - 1" by simp
qed

lemma top_hash_index:
  assumes "1 \<le> p" "p \<le> 2 ^ 128"
  shows "((2 ^ 128 - 1) * p) div 2 ^ 128 = (p - 1 :: int)"
  using assms by (intro int_div_eqI [where r = "2 ^ 128 - p"]) (simp_all add: algebra_simps)

subsection \<open>Hexadecimal digits\<close>

lemma base16_value_Nil: "base16_value [] = 0"
  by (simp add: base16_value_def)

lemma base16_value_Cons:
  "base16_value (c # cs) = base16_digit c * 16 ^ length cs + base16_value cs"
  by (simp add: base16_value_def sum.lessThan_Suc_shift del: sum.lessThan_Suc)

lemma char_code_cases:
  assumes "isLowerHex c"
  shows "c \<in> set ''0123456789abcdef''"
proof -
  define n where "n = (of_char c :: nat)"
  have c: "c = char_of n" by (simp add: n_def)
  from assms have "(48 \<le> n \<and> n \<le> 57) \<or> (97 \<le> n \<and> n \<le> 102)"
    by (simp add: isLowerHex_def n_def Let_def)
  then have "n = 48 \<or> n = 49 \<or> n = 50 \<or> n = 51 \<or> n = 52 \<or> n = 53 \<or> n = 54 \<or> n = 55
      \<or> n = 56 \<or> n = 57 \<or> n = 97 \<or> n = 98 \<or> n = 99 \<or> n = 100 \<or> n = 101 \<or> n = 102"
    by arith
  then show ?thesis
    unfolding c by (elim disjE) (simp_all add: char_of_def bit_Suc_0_iff bit_0)
qed

lemma hexDigitValue_lower:
  assumes "isLowerHex c"
  shows "hexDigitValue c = Some (base16_digit c)" and "0 \<le> base16_digit c" and "base16_digit c \<le> 15"
proof -
  from char_code_cases [OF assms]
  have "c = CHR ''0'' \<or> c = CHR ''1'' \<or> c = CHR ''2'' \<or> c = CHR ''3'' \<or> c = CHR ''4''
      \<or> c = CHR ''5'' \<or> c = CHR ''6'' \<or> c = CHR ''7'' \<or> c = CHR ''8'' \<or> c = CHR ''9''
      \<or> c = CHR ''a'' \<or> c = CHR ''b'' \<or> c = CHR ''c'' \<or> c = CHR ''d'' \<or> c = CHR ''e''
      \<or> c = CHR ''f''"
    by simp
  then show "hexDigitValue c = Some (base16_digit c)"
    by (elim disjE) (simp_all add: hexDigitValue_def base16_digit_def)
  show "0 \<le> base16_digit c"
    by (simp add: base16_digit_def)
  from \<open>c = CHR ''0'' \<or> _\<close> show "base16_digit c \<le> 15"
    by (elim disjE) (simp_all add: base16_digit_def)
qed


lemma isLowerHex_iff: "isLowerHex c \<longleftrightarrow> c \<in> set ''0123456789abcdef''"
proof
  assume "isLowerHex c"
  then show "c \<in> set ''0123456789abcdef''" by (rule char_code_cases)
next
  assume "c \<in> set ''0123456789abcdef''"
  then have "c = CHR ''0'' \<or> c = CHR ''1'' \<or> c = CHR ''2'' \<or> c = CHR ''3'' \<or> c = CHR ''4''
      \<or> c = CHR ''5'' \<or> c = CHR ''6'' \<or> c = CHR ''7'' \<or> c = CHR ''8'' \<or> c = CHR ''9''
      \<or> c = CHR ''a'' \<or> c = CHR ''b'' \<or> c = CHR ''c'' \<or> c = CHR ''d'' \<or> c = CHR ''e''
      \<or> c = CHR ''f''"
    by simp
  then show "isLowerHex c"
    by (elim disjE) (simp_all add: isLowerHex_def)
qed

lemma readHex_lower:
  "list_all isLowerHex cs \<Longrightarrow>
     readHex acc cs = Some (acc * 16 ^ length cs + base16_value cs)"
proof (induction cs arbitrary: acc)
  case Nil
  show ?case by (simp add: base16_value_Nil)
next
  case (Cons c cs)
  then have c: "isLowerHex c" and cs: "list_all isLowerHex cs" by simp_all
  show ?case
    by (simp add: hexDigitValue_lower(1) [OF c] Cons.IH [OF cs] base16_value_Cons algebra_simps)
qed

lemma base16_value_bounds:
  "list_all isLowerHex cs \<Longrightarrow> 0 \<le> base16_value cs \<and> base16_value cs < 16 ^ length cs"
proof (induction cs)
  case Nil
  show ?case by (simp add: base16_value_Nil)
next
  case (Cons c cs)
  then have c: "isLowerHex c" and IH: "0 \<le> base16_value cs" "base16_value cs < 16 ^ length cs"
    by simp_all
  have d: "0 \<le> base16_digit c" "base16_digit c \<le> 15"
    using hexDigitValue_lower [OF c] by simp_all
  have "base16_digit c * 16 ^ length cs \<le> 15 * 16 ^ length cs"
    using d(2) by (intro mult_right_mono) simp_all
  moreover have "0 \<le> base16_digit c * 16 ^ length cs"
    using d(1) by simp
  moreover have "(16::int) ^ length (c # cs) = 15 * 16 ^ length cs + 16 ^ length cs"
    by simp
  ultimately show ?case
    unfolding base16_value_Cons using IH by linarith
qed

lemma isLowerHex_not_space: "isLowerHex c \<Longrightarrow> \<not> isWhiteSpace c"
  by (auto simp add: isLowerHex_def isWhiteSpace_def Let_def)

lemma BigInt_of_hex_lower:
  assumes "s \<noteq> []" "list_all isLowerHex s"
  shows "BigInt_of_hex s = Inr (base16_value s)"
proof -
  have "isLowerHex (last s)"
    using assms by (simp add: list_all_iff)
  then have "\<not> isWhiteSpace (hd (rev s))"
    using assms(1) by (simp add: hd_rev isLowerHex_not_space)
  then have "dropWhile isWhiteSpace (rev s) = rev s"
    using assms(1) by (cases "rev s") simp_all
  then show ?thesis
    using assms by (simp add: BigInt_of_hex_def readHex_lower)
qed

subsection \<open>The loop of generateMany\<close>







subsection \<open>Quantifiers\<close>

lemma scanDigits_run:
  assumes "list_all isDigit ds" "rest = [] \<or> \<not> isDigit (hd rest)"
  shows "scanDigits (u @ ds @ rest) (length u) acc = (acc @ ds, length u + length ds)"
  using assms
proof (induction ds arbitrary: u acc)
  case Nil
  then show ?case
    by (cases rest) (simp_all add: scanDigits.simps [of _ "length u"] nth_append)
next
  case (Cons d ds)
  then have d: "isDigit d" and ds: "list_all isDigit ds" by simp_all
  have "scanDigits (u @ (d # ds) @ rest) (length u) acc =
      scanDigits ((u @ [d]) @ ds @ rest) (length (u @ [d])) (acc @ [d])"
    using d by (simp add: scanDigits.simps [of _ "length u"] nth_append)
  also have "\<dots> = ((acc @ [d]) @ ds, length (u @ [d]) + length ds)"
    using ds Cons.prems(2) by (rule Cons.IH)
  finally show ?case by simp
qed

lemma digit_not_punct:
  "isDigit c \<Longrightarrow> c \<noteq> CHR '','' \<and> c \<noteq> CHR ''}'' \<and> c \<noteq> CHR ''{''"
  by (auto simp add: isDigit_def charCode_def)

lemma not_digit_punct: "\<not> isDigit (CHR '','')" "\<not> isDigit (CHR ''}'')"
  by (simp_all add: isDigit_def charCode_def)

lemma parseQuantifier_simple:
  "length pattern \<le> i \<Longrightarrow> parseQuantifier pattern i = Inr (1, 1, i)"
  "i < length pattern \<Longrightarrow> pattern ! i = CHR ''?'' \<Longrightarrow> parseQuantifier pattern i = Inr (0, 1, i + 1)"
  "i < length pattern \<Longrightarrow> pattern ! i = CHR ''+'' \<Longrightarrow> parseQuantifier pattern i = Inr (1, 16, i + 1)"
  "i < length pattern \<Longrightarrow> pattern ! i = CHR ''*'' \<Longrightarrow> parseQuantifier pattern i = Inr (0, 16, i + 1)"
  "i < length pattern \<Longrightarrow> pattern ! i \<noteq> CHR ''?'' \<Longrightarrow> pattern ! i \<noteq> CHR ''+'' \<Longrightarrow>
     pattern ! i \<noteq> CHR ''*'' \<Longrightarrow> pattern ! i \<noteq> CHR ''{'' \<Longrightarrow> parseQuantifier pattern i = Inr (1, 1, i)"
  by (simp_all add: parseQuantifier_def)

lemma parseQuantifier_brace:
  assumes "i < length pattern" "pattern ! i = CHR ''{''"
  shows "parseQuantifier pattern i =
     (let (n1, j) = scanDigits pattern (i + 1) [] in
        if n1 = [] then Inl InvalidQuantifier
        else
          let mn = Number_of_digits n1;
              (mx, j') =
                (if charAt pattern j = Some (CHR '','') then
                   let (n2, k) = scanDigits pattern (j + 1) []
                   in (if n2 = [] then mn + 16 else Number_of_digits n2, k)
                 else (mn, j))
          in
            if charAt pattern j' \<noteq> Some (CHR ''}'') then Inl InvalidQuantifier
            else if mx < mn then Inl InvalidQuantifier
            else if 100000 < mx then Inl InvalidQuantifier
            else Inr (mn, mx, j' + 1))"
  using assms by (simp add: parseQuantifier_def)

lemma parseQuantifier_exact:
  assumes "ds \<noteq> []" "list_all isDigit ds"
  shows "parseQuantifier (pre @ ''{'' @ ds @ ''}'' @ rest) (length pre) =
     (if Number_of_digits ds \<le> 100000
      then Inr (Number_of_digits ds, Number_of_digits ds, length pre + length ds + 2)
      else Inl InvalidQuantifier)"
proof -
  define p where "p = pre @ ''{'' @ ds @ ''}'' @ rest"
  have open_brace: "length pre < length p" "p ! length pre = CHR ''{''"
    by (simp_all add: p_def)
  have scan: "scanDigits p (length pre + 1) [] = (ds, length pre + 1 + length ds)"
    using scanDigits_run [of ds "''}'' @ rest" "pre @ ''{''" "[]"] assms(2)
    by (simp add: not_digit_punct p_def)
  have at: "charAt p (length pre + 1 + length ds) = Some (CHR ''}'')"
    by (simp add: charAt_def nth_append p_def)
  have "parseQuantifier p (length pre) =
     (if Number_of_digits ds \<le> 100000
      then Inr (Number_of_digits ds, Number_of_digits ds, length pre + length ds + 2)
      else Inl InvalidQuantifier)"
    unfolding parseQuantifier_brace [OF open_brace]
    using scan at assms(1) by (simp add: Let_def)
  then show ?thesis by (simp only: p_def)
qed

lemma parseQuantifier_open:
  assumes "ds \<noteq> []" "list_all isDigit ds"
  shows "parseQuantifier (pre @ ''{'' @ ds @ '',}'' @ rest) (length pre) =
     (if Number_of_digits ds + 16 \<le> 100000
      then Inr (Number_of_digits ds, Number_of_digits ds + 16, length pre + length ds + 3)
      else Inl InvalidQuantifier)"
proof -
  define p where "p = pre @ ''{'' @ ds @ '',}'' @ rest"
  have open_brace: "length pre < length p" "p ! length pre = CHR ''{''"
    by (simp_all add: p_def)
  have scan: "scanDigits p (length pre + 1) [] = (ds, length pre + 1 + length ds)"
    using scanDigits_run [of ds "'',}'' @ rest" "pre @ ''{''" "[]"] assms(2)
    by (simp add: not_digit_punct p_def)
  have at: "charAt p (length pre + 1 + length ds) = Some (CHR '','')"
    by (simp add: charAt_def nth_append p_def)
  have scan2: "scanDigits p (length pre + 1 + length ds + 1) [] = ([], length pre + 1 + length ds + 1)"
    using scanDigits_run [of "[]" "''}'' @ rest" "pre @ ''{'' @ ds @ '',''" "[]"]
    by (simp add: not_digit_punct p_def)
  have at2: "charAt p (length pre + 1 + length ds + 1) = Some (CHR ''}'')"
    by (simp add: charAt_def nth_append p_def)
  have "parseQuantifier p (length pre) =
     (if Number_of_digits ds + 16 \<le> 100000
      then Inr (Number_of_digits ds, Number_of_digits ds + 16, length pre + length ds + 3)
      else Inl InvalidQuantifier)"
    unfolding parseQuantifier_brace [OF open_brace]
    using scan at scan2 at2 assms(1) by (simp add: Let_def)
  then show ?thesis by (simp only: p_def)
qed

lemma parseQuantifier_range:
  assumes "ds \<noteq> []" "list_all isDigit ds" "es \<noteq> []" "list_all isDigit es"
  shows "parseQuantifier (pre @ ''{'' @ ds @ '','' @ es @ ''}'' @ rest) (length pre) =
     (if Number_of_digits ds \<le> Number_of_digits es \<and> Number_of_digits es \<le> 100000
      then Inr (Number_of_digits ds, Number_of_digits es, length pre + length ds + length es + 3)
      else Inl InvalidQuantifier)"
proof -
  define p where "p = pre @ ''{'' @ ds @ '','' @ es @ ''}'' @ rest"
  have open_brace: "length pre < length p" "p ! length pre = CHR ''{''"
    by (simp_all add: p_def)
  have scan: "scanDigits p (length pre + 1) [] = (ds, length pre + 1 + length ds)"
    using scanDigits_run [of ds "'','' @ es @ ''}'' @ rest" "pre @ ''{''" "[]"] assms(2)
    by (simp add: not_digit_punct p_def)
  have at: "charAt p (length pre + 1 + length ds) = Some (CHR '','')"
    by (simp add: charAt_def nth_append p_def)
  have scan2: "scanDigits p (length pre + 1 + length ds + 1) [] =
      (es, length pre + 1 + length ds + 1 + length es)"
    using scanDigits_run [of es "''}'' @ rest" "pre @ ''{'' @ ds @ '',''" "[]"] assms(4)
    by (simp add: not_digit_punct p_def)
  have at2: "charAt p (length pre + 1 + length ds + 1 + length es) = Some (CHR ''}'')"
    by (simp add: charAt_def nth_append p_def)
  have "parseQuantifier p (length pre) =
     (if Number_of_digits ds \<le> Number_of_digits es \<and> Number_of_digits es \<le> 100000
      then Inr (Number_of_digits ds, Number_of_digits es, length pre + length ds + length es + 3)
      else Inl InvalidQuantifier)"
    unfolding parseQuantifier_brace [OF open_brace]
    using scan at scan2 at2 assms(1,3) by (auto simp add: Let_def)
  then show ?thesis by (simp only: p_def)
qed


lemma parseQuantifier_no_digits:
  assumes "i < length pattern" "pattern ! i = CHR ''{''"
    and "length pattern \<le> i + 1 \<or> \<not> isDigit (pattern ! (i + 1))"
  shows "parseQuantifier pattern i = Inl InvalidQuantifier"
proof -
  have "scanDigits pattern (i + 1) [] = ([], i + 1)"
    using assms(3) by (subst scanDigits.simps) auto
  then show ?thesis
    unfolding parseQuantifier_brace [OF assms(1,2)] by simp
qed

lemma parseQuantifier_unclosed:
  assumes "ds \<noteq> []" "list_all isDigit ds"
    and "rest = [] \<or> (\<not> isDigit (hd rest) \<and> hd rest \<noteq> CHR '','' \<and> hd rest \<noteq> CHR ''}'')"
  shows "parseQuantifier (pre @ ''{'' @ ds @ rest) (length pre) = Inl InvalidQuantifier"
proof -
  define p where "p = pre @ ''{'' @ ds @ rest"
  have open_brace: "length pre < length p" "p ! length pre = CHR ''{''"
    by (simp_all add: p_def)
  have scan: "scanDigits p (length pre + 1) [] = (ds, length pre + 1 + length ds)"
    using scanDigits_run [of ds rest "pre @ ''{''" "[]"] assms(2,3)
    by (auto simp add: p_def)
  have at: "charAt p (length pre + 1 + length ds) \<noteq> Some (CHR '','')"
    "charAt p (length pre + 1 + length ds) \<noteq> Some (CHR ''}'')"
    using assms(3) by (cases rest; simp add: charAt_def nth_append p_def)+
  have "parseQuantifier p (length pre) = Inl InvalidQuantifier"
    unfolding parseQuantifier_brace [OF open_brace]
    using scan at assms(1) by (simp add: Let_def)
  then show ?thesis by (simp only: p_def)
qed

lemma parseQuantifier_unclosed_range:
  assumes "ds \<noteq> []" "list_all isDigit ds" "list_all isDigit es"
    and "rest = [] \<or> (\<not> isDigit (hd rest) \<and> hd rest \<noteq> CHR ''}'')"
  shows "parseQuantifier (pre @ ''{'' @ ds @ '','' @ es @ rest) (length pre) = Inl InvalidQuantifier"
proof -
  define p where "p = pre @ ''{'' @ ds @ '','' @ es @ rest"
  have open_brace: "length pre < length p" "p ! length pre = CHR ''{''"
    by (simp_all add: p_def)
  have scan: "scanDigits p (length pre + 1) [] = (ds, length pre + 1 + length ds)"
    using scanDigits_run [of ds "'','' @ es @ rest" "pre @ ''{''" "[]"] assms(2)
    by (simp add: not_digit_punct p_def)
  have at: "charAt p (length pre + 1 + length ds) = Some (CHR '','')"
    by (simp add: charAt_def nth_append p_def)
  have scan2: "scanDigits p (length pre + 1 + length ds + 1) [] =
      (es, length pre + 1 + length ds + 1 + length es)"
    using scanDigits_run [of es rest "pre @ ''{'' @ ds @ '',''" "[]"] assms(3,4)
    by (auto simp add: p_def)
  have at2: "charAt p (length pre + 1 + length ds + 1 + length es) \<noteq> Some (CHR ''}'')"
    using assms(4) by (cases rest; simp add: charAt_def nth_append p_def)
  have "parseQuantifier p (length pre) = Inl InvalidQuantifier"
    unfolding parseQuantifier_brace [OF open_brace]
    using scan at scan2 at2 assms(1) by (simp add: Let_def)
  then show ?thesis by (simp only: p_def)
qed

lemma parseQuantifier_bounds:
  "parseQuantifier pattern i = Inr (mn, mx, j) \<Longrightarrow> mn \<le> mx \<and> mx \<le> 100000"
  by (auto simp add: parseQuantifier_def Let_def split: if_splits prod.splits)

lemma compile_loop_dangling:
  assumes "i < length pattern"
    and "pattern ! i = CHR ''{'' \<or> pattern ! i = CHR ''}'' \<or> pattern ! i = CHR ''?''
       \<or> pattern ! i = CHR ''+'' \<or> pattern ! i = CHR ''*''"
  shows "compile_loop pattern i pieces = Inl (DanglingQuantifier (pattern ! i))"
  using assms by (subst compile_loop.simps) (auto simp add: parseAtom_def)

lemma compile_loop_step:
  assumes "i < length pattern" "pattern ! i \<noteq> CHR ''^''" "pattern ! i \<noteq> CHR ''$''"
    and "parseAtom pattern i = Inr (a, i')"
  shows "compile_loop pattern i pieces =
     (case parseQuantifier pattern i' of
        Inl e \<Rightarrow> Inl e
      | Inr (mn, mx, i'') \<Rightarrow>
          compile_loop pattern i'' (pieces @ [\<lparr>atom = a, min_rep = mn, max_rep = mx\<rparr>]))"
  using assms by (subst compile_loop.simps) simp

lemma compile_loop_bounds:
  assumes "compile_loop pattern i pieces = Inr result"
    and "list_all (\<lambda>p. min_rep p \<le> max_rep p \<and> max_rep p \<le> 100000) pieces"
  shows "list_all (\<lambda>p. min_rep p \<le> max_rep p \<and> max_rep p \<le> 100000) result"
  using assms
proof (induction pattern i pieces rule: compile_loop.induct)
  case (1 pattern i pieces)
  note unfold = compile_loop.simps [of pattern i pieces]
  show ?case
  proof (cases "i < length pattern")
    case False
    with "1.prems" show ?thesis by (simp add: unfold)
  next
    case inside: True
    show ?thesis
    proof (cases "pattern ! i = CHR ''^'' \<or> pattern ! i = CHR ''$''")
      case True
      with "1.prems" inside have "compile_loop pattern (i + 1) pieces = Inr result"
        by (simp add: unfold)
      then show ?thesis
        using "1.IH"(1) [OF inside True] "1.prems"(2) by blast
    next
      case anchor: False
      with "1.prems"(1) inside obtain a i' mn mx i'' where
        atom: "parseAtom pattern i = Inr (a, i')"
        and quant: "parseQuantifier pattern i' = Inr (mn, mx, i'')"
        and rest: "compile_loop pattern i''
            (pieces @ [\<lparr>atom = a, min_rep = mn, max_rep = mx\<rparr>]) = Inr result"
        by (auto simp add: unfold split: sum.splits prod.splits)
      have "list_all (\<lambda>p. min_rep p \<le> max_rep p \<and> max_rep p \<le> 100000)
          (pieces @ [\<lparr>atom = a, min_rep = mn, max_rep = mx\<rparr>])"
        using "1.prems"(2) parseQuantifier_bounds [OF quant] by simp
      with "1.IH"(2) [OF inside anchor atom refl quant refl refl rest] show ?thesis .
    qed
  qed
qed

subsection \<open>Character classes\<close>










text \<open>
  The product is rounded before the floor is taken: the draw \<open>0.8999999999999999\<close>,
  which is \<open>2026619832316723 / 2^51\<close>, times \<open>10\<close> lies halfway between two doubles and
  rounds to \<open>9\<close>, so the last of the ten digits is picked.
\<close>

lemma binade_tie: "binade (10133099161583615 / 1125899906842624) = 3"
  by (intro binade_eq) simp_all

lemma roundFinite_tie: "roundFinite (10133099161583615 / 1125899906842624) = 9"
  by (simp add: roundFinite_def roundMagnitude_def ulp_def binade_tie roundEven_def Let_def
      power_int_minus)

lemma pick_rounds_product:
  "pick (\<lambda>_. 2026619832316723 / 2 ^ 51) 0 digits = (Some (CHR ''9''), 1)"
  by (simp add: pick_def randInt_def digits_def roundFinite_tie)









subsection \<open>The distribution summary\<close>

lemma ToLength_int: "ToLength (Num (of_int k)) = min (nat k) (2 ^ 53 - 1)"
  by simp

lemma Array_from_zeros_limit:
  assumes "n = Infinity \<or> (\<exists>x. n = Num x \<and> 2 ^ 32 \<le> x)"
  shows "Array_from_zeros capacity n = Inl RangeError"
proof (cases "n = Infinity")
  case True
  then show ?thesis by (simp add: Array_from_zeros_def)
next
  case False
  with assms obtain x where x: "n = Num x" "2 ^ 32 \<le> x" by blast
  then have "(2 ^ 32 :: int) \<le> \<lfloor>x\<rfloor>" by (simp add: le_floor_iff)
  then have "(2 ^ 32 :: nat) \<le> nat \<lfloor>x\<rfloor>" by (simp add: le_nat_iff)
  then show ?thesis
    using x by (simp add: Array_from_zeros_def)
qed

lemma Array_from_zeros_int:
  assumes "Array_from_zeros capacity (Num (of_int k)) = Inr zs"
  shows "zs = replicate (nat k) (Some (Num 0)) \<and> k < 2 ^ 32 \<and> nat k \<le> capacity"
proof -
  define len where "len = ToLength (Num (of_int k))"
  have len: "len = min (nat k) (2 ^ 53 - 1)"
    unfolding len_def by (rule ToLength_int)
  from assms have a: "len < 2 ^ 32" "len \<le> capacity" "zs = replicate len (Some (Num 0))"
    by (auto simp add: Array_from_zeros_def Let_def simp flip: len_def split: if_splits
        simp del: ToLength.simps)
  from a(1) have "len < 4294967296" by simp
  with len have nk: "len = nat k" by (simp add: min_def split: if_splits)
  then have "nat k < 4294967296" using \<open>len < 4294967296\<close> by simp
  then have "k < 4294967296" by linarith
  then have "k < 2 ^ 32" by simp
  with a nk show ?thesis by simp
qed

lemma Array_from_zeros_built:
  assumes "k < 2 ^ 32" "nat k \<le> capacity"
  shows "Array_from_zeros capacity (Num (of_int k)) = Inr (replicate (nat k) (Some (Num 0)))"
proof -
  from assms(1) have "k < 4294967296" by simp
  then have "nat k < 4294967296" by linarith
  then have "min (nat k) (2 ^ 53 - 1) = nat k" "nat k < 2 ^ 32" by simp_all
  then show ?thesis
    using assms(2) by (simp add: Array_from_zeros_def ToLength_int del: ToLength.simps)
qed

lemma summarize_fields:
  assumes "Array_from_zeros capacity n = Inr zs"
  shows "\<exists>r. summarizeDistribution capacity n idxs = Inr r \<and> shardCount r = n
           \<and> totalKeys r = length idxs
           \<and> counts r = foldl (countStep n) zs idxs
           \<and> (maxCount r, maxShard r) =
                 foldl (maxStep (counts r)) (NegInfinity, 0) [0..<length (counts r)]
           \<and> avg r = number_div (Num (real (length idxs))) n"
  using assms by (simp add: summarizeDistribution_def Let_def split: prod.split)

lemma summarize_error:
  assumes "Array_from_zeros capacity n = Inl e"
  shows "summarizeDistribution capacity n idxs = Inl e"
  using assms by (simp add: summarizeDistribution_def)

lemma replicate_some:
  "replicate 3 x = [x, x, x]" "replicate 4 x = [x, x, x, x]"
  by (simp_all add: numeral_eq_Suc)

lemma countArray_replicate: "replicate n (Some (Num 0)) = countArray (replicate n 0)"
  by (simp add: countArray_def)

lemma number_add_one:
  assumes "Suc c < 2 ^ 53"
  shows "number_add (Num (real c)) (Num 1) = Num (real (Suc c))"
proof -
  have "real c + 1 = real (Suc c)" by simp
  then have "number_add (Num (real c)) (Num 1) = roundDouble (real (Suc c))"
    by (simp only: number_add.simps)
  then show ?thesis
    using roundDouble_of_nat [OF assms] by (simp only:)
qed

lemma countStep_countArray:
  assumes "length ns = nat k" "\<forall>c \<in> set ns. Suc c < 2 ^ 53"
  shows "countStep (Num (of_int k)) (countArray ns) idx = countArray (bump k ns idx)"
proof (cases "0 \<le> idx \<and> idx < k")
  case True
  then have i: "nat idx < length ns" using assms(1) by simp
  then have "Suc (ns ! nat idx) < 2 ^ 53" using assms(2) by simp
  then have one: "number_add (Num (real (ns ! nat idx))) (Num 1) = Num (real (Suc (ns ! nat idx)))"
    by (rule number_add_one)
  have e: "elemNumber (countArray ns) (nat idx) = Num (real (ns ! nat idx))"
    using i by (simp add: elemNumber_def countArray_def)
  have "countStep (Num (of_int k)) (countArray ns) idx
      = arraySet (countArray ns) (nat idx)
          (number_add (elemNumber (countArray ns) (nat idx)) (Num 1))"
    using True by (simp add: countStep_def del: number_add.simps)
  also have "\<dots> = arraySet (countArray ns) (nat idx) (Num (real (Suc (ns ! nat idx))))"
    by (simp only: e one)
  also have "\<dots> = countArray (ns[nat idx := Suc (ns ! nat idx)])"
    using i by (simp add: arraySet_def countArray_def map_update del: of_nat_Suc)
  finally show ?thesis
    using True by (simp add: bump_def)
next
  case False
  then show ?thesis
    by (auto simp add: countStep_def bump_def)
qed

lemma length_bump: "length (bump k ns idx) = length ns"
  by (simp add: bump_def)

lemma set_bump: "c \<in> set (bump k ns idx) \<Longrightarrow> \<exists>b \<in> set ns. c \<le> Suc b"
proof (cases "nat idx < length ns")
  case True
  assume "c \<in> set (bump k ns idx)"
  then have "c \<in> insert (Suc (ns ! nat idx)) (set ns)"
    using set_update_subset_insert [of ns "nat idx" "Suc (ns ! nat idx)"]
    by (auto simp add: bump_def split: if_splits)
  then show ?thesis
    using True by (auto intro: bexI [of _ "ns ! nat idx"] bexI [of _ c])
next
  case False
  then have "ns[nat idx := Suc (ns ! nat idx)] = ns"
    by (simp add: list_update_beyond)
  then have same: "bump k ns idx = ns" by (simp add: bump_def)
  assume "c \<in> set (bump k ns idx)"
  then have "c \<in> set ns" by (simp only: same)
  then show ?thesis by (auto intro: bexI [of _ c])
qed

lemma foldl_countStep:
  "length ns = nat k \<Longrightarrow> \<forall>c \<in> set ns. c + length idxs < 2 ^ 53 \<Longrightarrow>
     foldl (countStep (Num (of_int k))) (countArray ns) idxs = countArray (foldl (bump k) ns idxs)"
proof (induction idxs arbitrary: ns)
  case Nil
  show ?case by simp
next
  case (Cons x xs)
  have small: "\<forall>c \<in> set ns. Suc c < 2 ^ 53"
    using Cons.prems(2) by auto
  have len: "length (bump k ns x) = nat k"
    using Cons.prems(1) by (simp add: length_bump)
  have "\<forall>c \<in> set (bump k ns x). c + length xs < 2 ^ 53"
  proof
    fix c assume "c \<in> set (bump k ns x)"
    then obtain b where b: "b \<in> set ns" "c \<le> Suc b" using set_bump by blast
    from Cons.prems(2) b(1) have "b + length (x # xs) < 2 ^ 53" by blast
    with b(2) show "c + length xs < 2 ^ 53" by simp
  qed
  from Cons.IH [OF len this] show ?case
    by (simp add: countStep_countArray [OF Cons.prems(1) small])
qed

lemma length_foldl_bump: "length (foldl (bump k) ns idxs) = length ns"
  by (induction idxs arbitrary: ns) (simp_all add: length_bump)

lemma nth_foldl_bump:
  "length ns = nat k \<Longrightarrow> i < length ns \<Longrightarrow>
     foldl (bump k) ns idxs ! i = ns ! i + count_list idxs (int i)"
proof (induction idxs arbitrary: ns)
  case Nil
  show ?case by simp
next
  case (Cons x xs)
  have len: "length (bump k ns x) = nat k" "i < length (bump k ns x)"
    using Cons.prems by (simp_all add: length_bump)
  have "bump k ns x ! i = ns ! i + (if x = int i then 1 else 0)"
    using Cons.prems by (auto simp add: bump_def nth_list_update)
  then show ?case
    using Cons.IH [OF len] by simp
qed

lemma counts_of_indexes:
  "foldl (bump k) (replicate (nat k) 0) idxs = map (\<lambda>i. count_list idxs (int i)) [0..<nat k]"
  by (rule nth_equalityI) (simp_all add: length_foldl_bump nth_foldl_bump)

lemma sum_list_indicator:
  "sum_list (map (\<lambda>i. if x = int i then 1 else 0) [0..<n]) = (if 0 \<le> x \<and> x < int n then 1 else (0::nat))"
proof (induction n)
  case 0
  show ?case by simp
next
  case (Suc n)
  show ?case
    using Suc.IH by auto
qed

lemma sum_list_counts:
  "sum_list (map (\<lambda>i. count_list idxs (int i)) [0..<n])
     = length (filter (\<lambda>x. 0 \<le> x \<and> x < int n) idxs)"
proof (induction idxs)
  case Nil
  show ?case by simp
next
  case (Cons x xs)
  have "map (\<lambda>i. count_list (x # xs) (int i)) [0..<n]
      = map (\<lambda>i. count_list xs (int i) + (if x = int i then 1 else 0)) [0..<n]"
    by (intro map_cong refl) simp
  then have "sum_list (map (\<lambda>i. count_list (x # xs) (int i)) [0..<n])
      = sum_list (map (\<lambda>i. count_list xs (int i)) [0..<n])
        + sum_list (map (\<lambda>i. if x = int i then 1 else 0) [0..<n])"
    by (simp only: sum_list_addf)
  then show ?case
    using Cons.IH by (simp add: sum_list_indicator)
qed

lemma elemNumber_countArray: "i < length ns \<Longrightarrow> elemNumber (countArray ns) i = Num (real (ns ! i))"
  by (simp add: elemNumber_def countArray_def)

lemma length_countArray: "length (countArray ns) = length ns"
  by (simp add: countArray_def)

lemma maxStep_first:
  "0 < length ns \<Longrightarrow> maxStep (countArray ns) (NegInfinity, 0) 0 = (Num (real (ns ! 0)), 0)"
  by (simp add: maxStep_def elemNumber_countArray number_gt_def)

lemma maxStep_next:
  assumes "i < length ns"
  shows "maxStep (countArray ns) (Num (real c), j) i =
           (if c < ns ! i then (Num (real (ns ! i)), i) else (Num (real c), j))"
  using assms by (simp add: maxStep_def elemNumber_countArray number_gt_def)

lemma max_scan_prefix:
  assumes "m < length ns"
  shows "\<exists>j \<le> m. foldl (maxStep (countArray ns)) (NegInfinity, 0) [0..<Suc m]
             = (Num (real (ns ! j)), j)
           \<and> (\<forall>i \<le> m. ns ! i \<le> ns ! j) \<and> (\<forall>i < j. ns ! i < ns ! j)"
  using assms
proof (induction m)
  case 0
  then show ?case by (simp add: maxStep_first)
next
  case (Suc m)
  then have "m < length ns" by simp
  from Suc.IH [OF this] obtain j where j: "j \<le> m"
    "foldl (maxStep (countArray ns)) (NegInfinity, 0) [0..<Suc m] = (Num (real (ns ! j)), j)"
    "\<forall>i \<le> m. ns ! i \<le> ns ! j" "\<forall>i < j. ns ! i < ns ! j"
    by blast
  have step: "foldl (maxStep (countArray ns)) (NegInfinity, 0) [0..<Suc (Suc m)]
      = (if ns ! j < ns ! Suc m then (Num (real (ns ! Suc m)), Suc m) else (Num (real (ns ! j)), j))"
    using j(2) Suc.prems by (simp add: maxStep_next del: upt_Suc add: upt_Suc_append)
  show ?case
  proof (cases "ns ! j < ns ! Suc m")
    case True
    have "\<forall>i \<le> Suc m. ns ! i \<le> ns ! Suc m"
    proof (intro allI impI)
      fix i assume "i \<le> Suc m"
      show "ns ! i \<le> ns ! Suc m"
      proof (cases "i = Suc m")
        case False
        with \<open>i \<le> Suc m\<close> have "i \<le> m" by simp
        with j(3) True show ?thesis by (meson le_less_trans less_imp_le)
      qed simp
    qed
    moreover have "\<forall>i < Suc m. ns ! i < ns ! Suc m"
    proof (intro allI impI)
      fix i assume "i < Suc m"
      then have "i \<le> m" by simp
      with j(3) True show "ns ! i < ns ! Suc m" by (meson le_less_trans)
    qed
    ultimately show ?thesis
      using step True by (intro exI [of _ "Suc m"]) simp
  next
    case False
    have "\<forall>i \<le> Suc m. ns ! i \<le> ns ! j"
    proof (intro allI impI)
      fix i assume "i \<le> Suc m"
      show "ns ! i \<le> ns ! j"
      proof (cases "i = Suc m")
        case True
        with False show ?thesis by simp
      next
        case neq: False
        with \<open>i \<le> Suc m\<close> have "i \<le> m" by simp
        with j(3) show ?thesis by simp
      qed
    qed
    then show ?thesis
      using step False j(1,4) by (intro exI [of _ j]) simp
  qed
qed

lemma max_scan:
  assumes "ns \<noteq> []"
  shows "\<exists>j < length ns. foldl (maxStep (countArray ns)) (NegInfinity, 0) [0..<length ns]
             = (Num (real (ns ! j)), j)
           \<and> (\<forall>i < length ns. ns ! i \<le> ns ! j) \<and> (\<forall>i < j. ns ! i < ns ! j)"
proof -
  obtain m where m: "length ns = Suc m"
    using assms by (cases ns) simp_all
  then have "m < length ns" by simp
  from max_scan_prefix [OF this] show ?thesis
    unfolding m by (metis le_imp_less_Suc less_Suc_eq_le)
qed

lemma summarize_int:
  assumes "Array_from_zeros capacity (Num (of_int k)) = Inr zs" "length idxs < 2 ^ 53"
  shows "\<exists>r. summarizeDistribution capacity (Num (of_int k)) idxs = Inr r
           \<and> totalKeys r = length idxs
           \<and> counts r = countArray (map (\<lambda>i. count_list idxs (int i)) [0..<nat k])
           \<and> (maxCount r, maxShard r) =
                 foldl (maxStep (counts r)) (NegInfinity, 0) [0..<length (counts r)]
           \<and> avg r = number_div (Num (real (length idxs))) (Num (of_int k))"
proof -
  have zeros: "Array_from_zeros capacity (Num (of_int k)) = Inr (countArray (replicate (nat k) 0))"
    using Array_from_zeros_int [OF assms(1)] assms(1) by (simp only: countArray_replicate)
  have "foldl (countStep (Num (of_int k))) (countArray (replicate (nat k) 0)) idxs
      = countArray (foldl (bump k) (replicate (nat k) 0) idxs)"
    using assms(2) by (intro foldl_countStep) simp_all
  then have "foldl (countStep (Num (of_int k))) (countArray (replicate (nat k) 0)) idxs
      = countArray (map (\<lambda>i. count_list idxs (int i)) [0..<nat k])"
    by (simp only: counts_of_indexes)
  with summarize_fields [OF zeros, of idxs] show ?thesis by auto
qed

lemma range_filter: "\<forall>x \<in> set idxs. 0 \<le> x \<and> x < k \<Longrightarrow>
    length (filter (\<lambda>x. 0 \<le> x \<and> x < int (nat k)) idxs) = length idxs"
proof -
  assume a: "\<forall>x \<in> set idxs. 0 \<le> x \<and> x < k"
  have "filter (\<lambda>x. 0 \<le> x \<and> x < int (nat k)) idxs = idxs"
    using a by (intro filter_True) auto
  then show ?thesis by simp
qed

lemma roundDouble_three_halves: "roundDouble (3 / 2) = Num (3 / 2)"
  using roundDouble_representable [of 3 "- 1"] by (simp add: power_int_minus)

lemma quotient_near:
  assumes "1 \<le> k" "k < 2 ^ 32" "n < 2 ^ 32"
  shows "\<exists>a. roundDouble (real n / real_of_int k) = Num a
           \<and> \<bar>a - real n / real_of_int k\<bar> \<le> real n / real_of_int k / 2 ^ 53"
proof (cases "n = 0")
  case True
  then show ?thesis by (simp add: roundDouble_zero)
next
  case False
  define x where "x = real n / real_of_int k"
  have k: "1 \<le> real_of_int k" "real_of_int k < 2 ^ 32"
    using assms(1,2) by (simp, metis of_int_less_iff of_int_numeral of_int_power)
  have n: "1 \<le> real n" "real n < 2 ^ 32"
    using False assms(3) by (simp, metis of_nat_less_iff of_nat_numeral of_nat_power)
  have "1 / 2 ^ 32 < 1 / real_of_int k"
    using k by (simp add: field_simps)
  also have "\<dots> \<le> x"
    unfolding x_def using n(1) k(1) by (simp add: field_simps)
  finally have "1 / 2 ^ 32 \<le> x" by simp
  moreover have "(2::real) powi (- 1022) \<le> 2 powi (- 32)"
    by (rule power_int_increasing) simp_all
  ultimately have low: "2 powi (- 1022) \<le> x"
    by (simp add: power_int_minus field_simps)
  have "x \<le> real n"
    unfolding x_def using k(1) n(1) by (simp add: field_simps mult_le_cancel_left1)
  also have "\<dots> \<le> 2 ^ 32" using n(2) by simp
  also have "\<dots> \<le> (2::real) ^ 1023" by (rule power_increasing) simp_all
  finally have "x \<le> 2 ^ 1023" .
  from roundDouble_near [OF low this] show ?thesis
    by (simp only: x_def)
qed

lemma summarize_empty:
  assumes "s = NaN \<or> s = NegInfinity \<or> (\<exists>x. s = Num x \<and> x \<le> 0)"
  shows "\<exists>r. summarizeDistribution capacity s idxs = Inr r \<and> counts r = []
           \<and> totalKeys r = length idxs \<and> maxCount r = NegInfinity \<and> maxShard r = 0"
proof -
  have zeros: "Array_from_zeros capacity s = Inr []"
    using assms by (auto simp add: Array_from_zeros_def)
  have step: "countStep s [] idx = []" for idx
    using assms by (auto simp add: countStep_def)
  have "foldl (countStep s) [] idxs = []"
    by (induction idxs) (simp_all add: step)
  with summarize_fields [OF zeros, of idxs] show ?thesis
    by (auto simp add: prod_eq_iff)
qed

section \<open>The claims\<close>

text \<open>
  C1 (amended). For every hash key \<open>h\<close> with \<open>0 \<le> h \<le> 2^128 - 1\<close> and every integer
  shard count \<open>p\<close> with \<open>1 \<le> p \<le> 2^53\<close>, \<open>hashKeyToShardIndex\<close> returns exactly
  \<open>floor(h * p / 2^128)\<close>, the result lies in \<open>[0, p - 1]\<close>, and \<open>h = 2^128 - 1\<close> yields
  \<open>p - 1\<close>.
\<close>

theorem hashKeyToShardIndex_floor:
  assumes "0 \<le> h" "h \<le> 2 ^ 128 - 1" "1 \<le> p" "p \<le> 2 ^ 53"
  shows "hashKeyToShardIndex h (Num (of_int p)) =
           Inr (Num (of_int \<lfloor>real_of_int (h * p) / 2 ^ 128\<rfloor>))
       \<and> 0 \<le> \<lfloor>real_of_int (h * p) / 2 ^ 128\<rfloor>
       \<and> \<lfloor>real_of_int (h * p) / 2 ^ 128\<rfloor> \<le> p - 1
       \<and> hashKeyToShardIndex (2 ^ 128 - 1) (Num (of_int p)) = Inr (Num (of_int (p - 1)))"
proof -
  have index: "hashKeyToShardIndex k (Num (of_int p)) = Inr (Num (of_int ((k * p) div 2 ^ 128)))"
    if "0 \<le> k" "k \<le> 2 ^ 128 - 1" for k
  proof -
    have lo: "0 \<le> (k * p) div 2 ^ 128" and hi: "(k * p) div 2 ^ 128 \<le> p - 1"
      using shard_index_bounds [OF that assms(3)] by simp_all
    have "0 \<le> k * p" using that assms(3) by simp
    then have "(k * p) sdiv 2 ^ 128 = (k * p) div 2 ^ 128"
      by (intro sdiv_nonneg) simp_all
    moreover have "Number_of_bigint ((k * p) div 2 ^ 128) = Num (of_int ((k * p) div 2 ^ 128))"
      using lo hi assms(4) by (intro Number_of_bigint_small) simp_all
    ultimately show ?thesis
      using assms(3) by (simp add: hashKeyToShardIndex_Num)
  qed
  have "hashKeyToShardIndex (2 ^ 128 - 1) (Num (of_int p)) = Inr (Num (of_int (p - 1)))"
    using index [of "2 ^ 128 - 1"] top_hash_index [of p] assms(3,4) by simp
  then show ?thesis
    using index [OF assms(1,2)] shard_index_bounds [OF assms(1,2,3)]
    by (simp only: floor_quotient_keyspace simp_thms)
qed

theorem hashKeyToShardIndex_floor_witness:
  "(0::int) \<le> 2 ^ 127 \<and> (2 ^ 127 :: int) \<le> 2 ^ 128 - 1 \<and> (1::int) \<le> 8 \<and> (8::int) \<le> 2 ^ 53
   \<and> hashKeyToShardIndex (2 ^ 127) (Num 8) = Inr (Num 4)
   \<and> hashKeyToShardIndex (2 ^ 128 - 1) (Num 8) = Inr (Num 7)"
  using hashKeyToShardIndex_floor [of "2 ^ 127" 8] by simp

theorem hashKeyToShardIndex_large_count:
  "hashKeyToShardIndex (2 ^ 128 - 1) (Num (2 ^ 60)) = Inr (Num (2 ^ 60))
   \<and> \<lfloor>real_of_int ((2 ^ 128 - 1) * 2 ^ 60) / 2 ^ 128\<rfloor> = 2 ^ 60 - 1
   \<and> \<not> ((2 ^ 60 :: real) \<le> 2 ^ 60 - 1)"
proof -
  have q: "((2 ^ 128 - 1) * 2 ^ 60) div 2 ^ 128 = (2 ^ 60 - 1 :: int)"
    by simp
  have "roundToDouble (2 ^ 60 - 1) = 2 ^ 60"
    by code_simp
  then have "Number_of_bigint (2 ^ 60 - 1) = Num (2 ^ 60)"
    by (simp add: Number_of_bigint_def)
  moreover have "\<lfloor>(2 ^ 60 :: real)\<rfloor> = 2 ^ 60"
    by simp
  ultimately have "hashKeyToShardIndex (2 ^ 128 - 1) (Num (2 ^ 60)) = Inr (Num (2 ^ 60))"
    using q by (simp add: hashKeyToShardIndex_Num sdiv_nonneg)
  moreover have "\<lfloor>real_of_int ((2 ^ 128 - 1) * 2 ^ 60) / 2 ^ 128\<rfloor> = 2 ^ 60 - 1"
    unfolding floor_quotient_keyspace by (rule q)
  ultimately show ?thesis by simp
qed

text \<open>
  C2 (amended). \<open>hashKeyToShardIndex\<close> fails, with \<open>InvalidShardCount\<close>, if and only if the
  shard count is not finite or is \<open>\<le> 0\<close>; for every finite shard count \<open>x > 0\<close>, integer or
  not, it returns an index, computed with the effective count \<open>floor(x)\<close>, an integer that
  is \<open>\<ge> 0\<close> and is \<open>\<ge> 1\<close> exactly when \<open>x \<ge> 1\<close>.
\<close>

theorem hashKeyToShardIndex_validation:
  "(hashKeyToShardIndex h p = Inl InvalidShardCount
      \<longleftrightarrow> p = NaN \<or> p = Infinity \<or> p = NegInfinity \<or> (\<exists>x. p = Num x \<and> x \<le> 0))
   \<and> ((\<exists>i. hashKeyToShardIndex h p = Inr i) \<longleftrightarrow> (\<exists>x. p = Num x \<and> 0 < x))
   \<and> (\<forall>x. 0 < x \<longrightarrow>
          shardCountBigInt (Num x) = Inr \<lfloor>x\<rfloor> \<and> 0 \<le> \<lfloor>x\<rfloor> \<and> (1 \<le> \<lfloor>x\<rfloor> \<longleftrightarrow> 1 \<le> x)
          \<and> hashKeyToShardIndex h (Num x) = Inr (Number_of_bigint ((h * \<lfloor>x\<rfloor>) sdiv 2 ^ 128)))"
proof (intro conjI allI impI)
  show "hashKeyToShardIndex h p = Inl InvalidShardCount
      \<longleftrightarrow> p = NaN \<or> p = Infinity \<or> p = NegInfinity \<or> (\<exists>x. p = Num x \<and> x \<le> 0)"
    by (cases p) (auto simp add: hashKeyToShardIndex_def shardCountBigInt_Num number_le_def)
  show "(\<exists>i. hashKeyToShardIndex h p = Inr i) \<longleftrightarrow> (\<exists>x. p = Num x \<and> 0 < x)"
    by (cases p) (auto simp add: hashKeyToShardIndex_def shardCountBigInt_Num number_le_def)
next
  fix x :: real
  assume "0 < x"
  then show "shardCountBigInt (Num x) = Inr \<lfloor>x\<rfloor>" "0 \<le> \<lfloor>x\<rfloor>" "1 \<le> \<lfloor>x\<rfloor> \<longleftrightarrow> 1 \<le> x"
    "hashKeyToShardIndex h (Num x) = Inr (Number_of_bigint ((h * \<lfloor>x\<rfloor>) sdiv 2 ^ 128))"
    by (simp_all add: shardCountBigInt_Num hashKeyToShardIndex_Num le_floor_iff)
qed

theorem hashKeyToShardIndex_validation_witness:
  "hashKeyToShardIndex (2 ^ 127) NaN = Inl InvalidShardCount
   \<and> hashKeyToShardIndex (2 ^ 127) (Num (- 3)) = Inl InvalidShardCount
   \<and> (0::real) < 5 / 2 \<and> shardCountBigInt (Num (5 / 2)) = Inr 2
   \<and> hashKeyToShardIndex (2 ^ 127) (Num (5 / 2)) = Inr (Num 1)"
proof -
  have "Number_of_bigint 1 = Num 1"
    by (simp add: Number_of_bigint_def roundToDouble_def)
  moreover have "\<lfloor>5 / 2 :: real\<rfloor> = 2" by simp
  moreover have "((2 ^ 127 * 2) sdiv 2 ^ 128 :: int) = 1"
    by (simp add: signed_divide_int_def)
  ultimately show ?thesis
    using hashKeyToShardIndex_validation [of "2 ^ 127" NaN]
      hashKeyToShardIndex_validation [of "2 ^ 127" "Num (- 3)"]
      hashKeyToShardIndex_validation [of "2 ^ 127" "Num (5 / 2)"]
    by simp
qed

theorem hashKeyToShardIndex_fraction_count:
  "Number_isFinite (Num (1 / 2)) \<and> number_gt (Num (1 / 2)) (Num 0)
   \<and> shardCountBigInt (Num (1 / 2)) = Inr 0
   \<and> hashKeyToShardIndex (2 ^ 128 - 1) (Num (1 / 2)) = Inr (Num 0)
   \<and> \<not> (1 \<le> (0::int))"
  by (simp add: hashKeyToShardIndex_def shardCountBigInt_def number_le_def number_gt_def
      keyspace_def signed_divide_int_def Number_of_bigint_def roundToDouble_def)

text \<open>
  C3. \<open>md5ToBigInt\<close> trims and lowercases its input; it fails with \<open>InvalidMD5Hex\<close>
  (InvalidDigestFormat) unless the result is exactly 32 characters of
  \<open>0123456789abcdef\<close>, and otherwise returns the base-16 value of those 32 digits. Every
  value it returns lies in \<open>[0, 2^128 - 1]\<close>; the all-zeros digest maps to \<open>0\<close>, the
  all-\<open>f\<close> digest to \<open>2^128 - 1\<close>. The result is a function of the digest string alone.
\<close>

theorem md5ToBigInt_base16:
  "md5ToBigInt s =
     (let n = toLowerCase (trim s)
      in if length n = 32 \<and> set n \<subseteq> set ''0123456789abcdef''
         then Inr (base16_value n) else Inl InvalidMD5Hex)
   \<and> (\<forall>v. md5ToBigInt s = Inr v \<longrightarrow> 0 \<le> v \<and> v \<le> 2 ^ 128 - 1)
   \<and> md5ToBigInt ''00000000000000000000000000000000'' = Inr 0
   \<and> md5ToBigInt ''ffffffffffffffffffffffffffffffff'' = Inr (2 ^ 128 - 1)"
proof -
  define n where "n = toLowerCase (trim s)"
  have hex_iff: "list_all isLowerHex n \<longleftrightarrow> set n \<subseteq> set ''0123456789abcdef''"
    unfolding list_all_iff isLowerHex_iff by (rule subset_eq [symmetric])
  have main: "md5ToBigInt s =
      (if length n = 32 \<and> set n \<subseteq> set ''0123456789abcdef''
       then Inr (base16_value n) else Inl InvalidMD5Hex)"
  proof (cases "length n = 32 \<and> list_all isLowerHex n")
    case True
    then have "n \<noteq> []" by auto
    with True show ?thesis
      using hex_iff by (simp add: md5ToBigInt_def matchesMd5Hex_def BigInt_of_hex_lower flip: n_def)
  next
    case False
    then show ?thesis
      using hex_iff by (auto simp add: md5ToBigInt_def matchesMd5Hex_def simp flip: n_def)
  qed
  have range: "0 \<le> v \<and> v \<le> 2 ^ 128 - 1" if "md5ToBigInt s = Inr v" for v
  proof -
    from that main have len: "length n = 32" and hex: "list_all isLowerHex n"
      and v: "v = base16_value n"
      using hex_iff by (auto split: if_splits)
    from base16_value_bounds [OF hex] len v show ?thesis by simp
  qed
  have "md5ToBigInt ''00000000000000000000000000000000'' = Inr 0"
    by (simp add: md5ToBigInt_def toLowerCase_def trim_def isWhiteSpace_def lowerChar_def
        matchesMd5Hex_def isLowerHex_def BigInt_of_hex_def hexDigitValue_def)
  moreover have "md5ToBigInt ''ffffffffffffffffffffffffffffffff'' = Inr (2 ^ 128 - 1)"
    by (simp add: md5ToBigInt_def toLowerCase_def trim_def isWhiteSpace_def lowerChar_def
        matchesMd5Hex_def isLowerHex_def BigInt_of_hex_def hexDigitValue_def)
  ultimately show ?thesis
    using main range by (simp add: n_def Let_def)
qed

theorem md5ToBigInt_base16_witness:
  "md5ToBigInt '' 000000000000000000000000000000FF  '' = Inr 255
   \<and> (0::int) \<le> 255 \<and> (255::int) \<le> 2 ^ 128 - 1
   \<and> md5ToBigInt ''xyz'' = Inl InvalidMD5Hex"
proof -
  have "md5ToBigInt '' 000000000000000000000000000000FF  '' = Inr 255"
    by (simp add: md5ToBigInt_def toLowerCase_def trim_def isWhiteSpace_def lowerChar_def
        matchesMd5Hex_def isLowerHex_def BigInt_of_hex_def hexDigitValue_def)
  moreover have "md5ToBigInt ''xyz'' = Inl InvalidMD5Hex"
    using md5ToBigInt_base16 [of "''xyz''"]
    by (simp add: toLowerCase_def trim_def isWhiteSpace_def lowerChar_def Let_def)
  ultimately show ?thesis
    using md5ToBigInt_base16 [of "'' 000000000000000000000000000000FF  ''"] by simp
qed





text \<open>
  C5 (amended). Whenever \<open>Array.from\<close> builds the count array for an integer shard
  count \<open>k\<close> (it never does for \<open>k\<close> of \<open>2^32\<close> or more, and a runtime may refuse
  shorter arrays), the array has length \<open>k\<close> (zero and negative counts give length \<open>0\<close>)
  and holds zeros, and \<open>summarizeDistribution\<close> returns a summary, whatever the indexes:
  bucket \<open>i\<close> holds the number of occurrences of \<open>i\<close> among the indexes, so an index
  outside \<open>[0, k)\<close> counts nowhere and raises nothing; \<open>totalKeys\<close> is the number of
  indexes; and when every index lies in \<open>[0, k)\<close> the buckets sum to the number of
  indexes. The indexes are an array, which has fewer than \<open>2^32\<close> elements.
\<close>

theorem summarizeDistribution_counts:
  assumes "Array_from_zeros capacity (Num (of_int k)) = Inr zeros" "length idxs < 2 ^ 32"
  shows "zeros = replicate (nat k) (Some (Num 0))
     \<and> (\<exists>r. summarizeDistribution capacity (Num (of_int k)) idxs = Inr r
           \<and> totalKeys r = length idxs
           \<and> counts r = map (\<lambda>i. Some (Num (real (count_list idxs (int i))))) [0..<nat k]
           \<and> ((\<forall>x \<in> set idxs. 0 \<le> x \<and> x < k) \<longrightarrow>
                sum_list (map (\<lambda>i. count_list idxs (int i)) [0..<nat k]) = length idxs))"
proof -
  have "(2::nat) ^ 32 \<le> 2 ^ 53" by (rule power_increasing) simp_all
  with assms(2) have len: "length idxs < 2 ^ 53" by (rule less_le_trans)
  from summarize_int [OF assms(1) len] obtain r where
    r: "summarizeDistribution capacity (Num (of_int k)) idxs = Inr r" "totalKeys r = length idxs"
      "counts r = countArray (map (\<lambda>i. count_list idxs (int i)) [0..<nat k])"
    by blast
  have c: "counts r = map (\<lambda>i. Some (Num (real (count_list idxs (int i))))) [0..<nat k]"
    unfolding r(3) by (simp add: countArray_def comp_def)
  have s: "sum_list (map (\<lambda>i. count_list idxs (int i)) [0..<nat k]) = length idxs"
    if "\<forall>x \<in> set idxs. 0 \<le> x \<and> x < k"
    using range_filter [OF that] by (simp only: sum_list_counts)
  show ?thesis
    using Array_from_zeros_int [OF assms(1)] r(1,2) c s by blast
qed

theorem summarizeDistribution_counts_witness:
  "Array_from_zeros 1000 (Num 4) = Inr [Some (Num 0), Some (Num 0), Some (Num 0), Some (Num 0)]
   \<and> length [0, 7, 1, - 1, 0 :: int] < 2 ^ 32
   \<and> (\<exists>r. summarizeDistribution 1000 (Num 4) [0, 7, 1, - 1, 0] = Inr r
         \<and> totalKeys r = 5
         \<and> counts r = [Some (Num 2), Some (Num 1), Some (Num 0), Some (Num 0)])
   \<and> (\<exists>r. summarizeDistribution 1000 (Num 4) [0, 0, 1, 2, 2, 2] = Inr r
         \<and> counts r = [Some (Num 2), Some (Num 1), Some (Num 3), Some (Num 0)]
         \<and> (2::nat) + 1 + 3 + 0 = length [0, 0, 1, 2, 2, 2 :: int])"
proof -
  have up: "[0..<nat 4] = [0, 1, 2, 3]"
    by (simp add: upt_conv_Cons)
  have built: "Array_from_zeros 1000 (Num (of_int 4))
      = Inr [Some (Num 0), Some (Num 0), Some (Num 0), Some (Num 0)]"
    by (simp add: Array_from_zeros_def replicate_some)
  have l1: "length [0, 7, 1, - 1, 0 :: int] < 2 ^ 32"
    and l2: "length [0, 0, 1, 2, 2, 2 :: int] < 2 ^ 32" by simp_all
  from summarizeDistribution_counts [OF built l1]
  obtain r1 where r1: "summarizeDistribution 1000 (Num (of_int 4)) [0, 7, 1, - 1, 0] = Inr r1"
      "totalKeys r1 = length [0, 7, 1, - 1, 0 :: int]"
      "counts r1 = map (\<lambda>i. Some (Num (real (count_list [0, 7, 1, - 1, 0] (int i))))) [0..<nat 4]"
    by blast
  from summarizeDistribution_counts [OF built l2]
  obtain r2 where r2: "summarizeDistribution 1000 (Num (of_int 4)) [0, 0, 1, 2, 2, 2] = Inr r2"
      "counts r2 = map (\<lambda>i. Some (Num (real (count_list [0, 0, 1, 2, 2, 2] (int i))))) [0..<nat 4]"
    by blast
  have "counts r1 = [Some (Num 2), Some (Num 1), Some (Num 0), Some (Num 0)]"
    unfolding r1(3) up by simp
  moreover have "counts r2 = [Some (Num 2), Some (Num 1), Some (Num 3), Some (Num 0)]"
    unfolding r2(2) up by simp
  ultimately show ?thesis
    using built r1(1,2) r2(1) by simp
qed

theorem summarizeDistribution_counts_array_limit:
  "summarizeDistribution (2 ^ 32 - 1) (Num 4294967296) [0, 1] = Inl RangeError
   \<and> (4294967296 :: real) = 2 ^ 32
   \<and> list_all (\<lambda>x. 0 \<le> x \<and> real_of_int x < 4294967296) [0, 1]"
  by (simp add: summarizeDistribution_def Array_from_zeros_def)

text \<open>
  C6. After each parsed atom, \<open>compile\<close> reads a quantifier suffix at the cursor: absent
  gives \<open>{1,1}\<close>, \<open>?\<close> gives \<open>{0,1}\<close>, \<open>+\<close> gives \<open>{1,16}\<close>, \<open>*\<close> gives \<open>{0,16}\<close>, \<open>{n}\<close>
  gives \<open>{n,n}\<close>, \<open>{n,}\<close> gives \<open>{n,n+16}\<close>, \<open>{n,m}\<close> gives \<open>{n,m}\<close>; it fails with
  \<open>InvalidQuantifier\<close> when no digit follows \<open>{\<close>, when the closing \<open>}\<close> is missing, when
  \<open>max < min\<close> and when \<open>max > 100000\<close> (a bound cannot be negative: a sign is not a
  digit). Any of \<open>{ } ? + *\<close> where an atom is to start fails with \<open>DanglingQuantifier\<close>.
  Every piece \<open>compile\<close> produces has \<open>0 \<le> min \<le> max \<le> 100000\<close>.
\<close>

theorem compile_quantifiers:
  "(length pattern \<le> i \<or> (pattern ! i \<noteq> CHR ''?'' \<and> pattern ! i \<noteq> CHR ''+''
        \<and> pattern ! i \<noteq> CHR ''*'' \<and> pattern ! i \<noteq> CHR ''{'')
      \<longrightarrow> parseQuantifier pattern i = Inr (1, 1, i))
   \<and> (i < length pattern \<and> pattern ! i = CHR ''?'' \<longrightarrow> parseQuantifier pattern i = Inr (0, 1, i + 1))
   \<and> (i < length pattern \<and> pattern ! i = CHR ''+'' \<longrightarrow> parseQuantifier pattern i = Inr (1, 16, i + 1))
   \<and> (i < length pattern \<and> pattern ! i = CHR ''*'' \<longrightarrow> parseQuantifier pattern i = Inr (0, 16, i + 1))
   \<and> (ds \<noteq> [] \<and> list_all isDigit ds \<longrightarrow>
        parseQuantifier (pre @ ''{'' @ ds @ ''}'' @ rest) (length pre) =
          (if Number_of_digits ds \<le> 100000
           then Inr (Number_of_digits ds, Number_of_digits ds, length pre + length ds + 2)
           else Inl InvalidQuantifier))
   \<and> (ds \<noteq> [] \<and> list_all isDigit ds \<longrightarrow>
        parseQuantifier (pre @ ''{'' @ ds @ '',}'' @ rest) (length pre) =
          (if Number_of_digits ds + 16 \<le> 100000
           then Inr (Number_of_digits ds, Number_of_digits ds + 16, length pre + length ds + 3)
           else Inl InvalidQuantifier))
   \<and> (ds \<noteq> [] \<and> list_all isDigit ds \<and> es \<noteq> [] \<and> list_all isDigit es \<longrightarrow>
        parseQuantifier (pre @ ''{'' @ ds @ '','' @ es @ ''}'' @ rest) (length pre) =
          (if Number_of_digits ds \<le> Number_of_digits es \<and> Number_of_digits es \<le> 100000
           then Inr (Number_of_digits ds, Number_of_digits es,
                     length pre + length ds + length es + 3)
           else Inl InvalidQuantifier))
   \<and> (i < length pattern \<and> pattern ! i = CHR ''{''
        \<and> (length pattern \<le> i + 1 \<or> \<not> isDigit (pattern ! (i + 1)))
      \<longrightarrow> parseQuantifier pattern i = Inl InvalidQuantifier)
   \<and> (ds \<noteq> [] \<and> list_all isDigit ds
        \<and> (rest = [] \<or> (\<not> isDigit (hd rest) \<and> hd rest \<noteq> CHR '','' \<and> hd rest \<noteq> CHR ''}''))
      \<longrightarrow> parseQuantifier (pre @ ''{'' @ ds @ rest) (length pre) = Inl InvalidQuantifier)
   \<and> (ds \<noteq> [] \<and> list_all isDigit ds \<and> list_all isDigit es
        \<and> (rest = [] \<or> (\<not> isDigit (hd rest) \<and> hd rest \<noteq> CHR ''}''))
      \<longrightarrow> parseQuantifier (pre @ ''{'' @ ds @ '','' @ es @ rest) (length pre) = Inl InvalidQuantifier)
   \<and> (i < length pattern
        \<and> (pattern ! i = CHR ''{'' \<or> pattern ! i = CHR ''}'' \<or> pattern ! i = CHR ''?''
             \<or> pattern ! i = CHR ''+'' \<or> pattern ! i = CHR ''*'')
      \<longrightarrow> compile_loop pattern i pieces = Inl (DanglingQuantifier (pattern ! i)))
   \<and> (i < length pattern \<and> pattern ! i \<noteq> CHR ''^'' \<and> pattern ! i \<noteq> CHR ''$''
        \<and> parseAtom pattern i = Inr (a, i')
      \<longrightarrow> compile_loop pattern i pieces =
            (case parseQuantifier pattern i' of
               Inl e \<Rightarrow> Inl e
             | Inr (mn, mx, i'') \<Rightarrow>
                 compile_loop pattern i'' (pieces @ [\<lparr>atom = a, min_rep = mn, max_rep = mx\<rparr>])))
   \<and> (compile pattern = Inr result
      \<longrightarrow> list_all (\<lambda>p. 0 \<le> min_rep p \<and> min_rep p \<le> max_rep p \<and> max_rep p \<le> 100000) result)"
proof (intro conjI impI)
  assume "length pattern \<le> i \<or> (pattern ! i \<noteq> CHR ''?'' \<and> pattern ! i \<noteq> CHR ''+''
        \<and> pattern ! i \<noteq> CHR ''*'' \<and> pattern ! i \<noteq> CHR ''{'')"
  then show "parseQuantifier pattern i = Inr (1, 1, i)"
    using parseQuantifier_simple(1,5) by (cases "length pattern \<le> i") auto
next
  assume "compile pattern = Inr result"
  then have "compile_loop pattern 0 [] = Inr result"
    by (simp add: compile_def split: if_splits)
  from compile_loop_bounds [OF this]
  show "list_all (\<lambda>p. 0 \<le> min_rep p \<and> min_rep p \<le> max_rep p \<and> max_rep p \<le> 100000) result"
    by simp
qed (simp_all add: parseQuantifier_simple parseQuantifier_exact parseQuantifier_open
    parseQuantifier_range parseQuantifier_no_digits parseQuantifier_unclosed
    parseQuantifier_unclosed_range compile_loop_dangling compile_loop_step
    del: append_Cons append_Nil append_assoc)


theorem compile_quantifiers_witness:
  "parseQuantifier ''a?'' 1 = Inr (0, 1, 2)
   \<and> parseQuantifier ''a{12}'' 1 = Inr (12, 12, 5)
   \<and> parseQuantifier ''a{12,}'' 1 = Inr (12, 28, 6)
   \<and> parseQuantifier ''a{12,34}'' 1 = Inr (12, 34, 8)
   \<and> compile ''a{3,2}'' = Inl InvalidQuantifier
   \<and> compile ''a{100001}'' = Inl InvalidQuantifier
   \<and> compile ''a{-1}'' = Inl InvalidQuantifier
   \<and> compile ''a{2'' = Inl InvalidQuantifier
   \<and> compile ''?a'' = Inl (DanglingQuantifier (CHR ''?''))
   \<and> compile ''a?'' = Inr [\<lparr>atom = Literal (CHR ''a''), min_rep = 0, max_rep = 1\<rparr>]"
proof -
  note inst = compile_quantifiers [where pattern = "''a?''" and i = 1 and pre = "''a''"
      and ds = "''12''" and es = "''34''" and rest = "[]" and pieces = "[]"
      and a = "Literal (CHR ''a'')" and i' = 1
      and result = "[\<lparr>atom = Literal (CHR ''a''), min_rep = 0, max_rep = 1\<rparr>]"]
  have evals: "compile ''a{3,2}'' = Inl InvalidQuantifier"
    "compile ''a{100001}'' = Inl InvalidQuantifier"
    "compile ''a{-1}'' = Inl InvalidQuantifier"
    "compile ''a{2'' = Inl InvalidQuantifier"
    "compile ''?a'' = Inl (DanglingQuantifier (CHR ''?''))"
    "compile ''a?'' = Inr [\<lparr>atom = Literal (CHR ''a''), min_rep = 0, max_rep = 1\<rparr>]"
    by (simp_all add: parser_defs compile_loop.simps scanDigits.simps)
  show ?thesis
    using inst evals by (simp add: Number_of_digits_def charCode_def isDigit_def)
qed




text \<open>
  C8. For every fixed shard count \<open>x \<ge> 1\<close> and all hash keys \<open>h1 < h2\<close> in
  \<open>[0, 2^128 - 1]\<close>, both calls return an index and the index of \<open>h1\<close> is \<open>\<le>\<close> that of
  \<open>h2\<close>.
\<close>

theorem hashKeyToShardIndex_monotone:
  assumes "1 \<le> x" "0 \<le> h1" "h1 < h2" "h2 \<le> 2 ^ 128 - 1"
  shows "\<exists>i1 i2. hashKeyToShardIndex h1 (Num x) = Inr i1
           \<and> hashKeyToShardIndex h2 (Num x) = Inr i2 \<and> number_le i1 i2"
proof -
  have n: "1 \<le> \<lfloor>x\<rfloor>" using assms(1) by (simp add: le_floor_iff)
  have prod: "0 \<le> h1 * \<lfloor>x\<rfloor>" "h1 * \<lfloor>x\<rfloor> \<le> h2 * \<lfloor>x\<rfloor>"
    using assms(2,3) n by (simp_all add: mult_right_mono)
  then have "0 \<le> (h1 * \<lfloor>x\<rfloor>) div 2 ^ 128"
    and "(h1 * \<lfloor>x\<rfloor>) div 2 ^ 128 \<le> (h2 * \<lfloor>x\<rfloor>) div 2 ^ 128"
    by (simp_all add: pos_imp_zdiv_nonneg_iff zdiv_mono1)
  then have "number_le (Number_of_bigint ((h1 * \<lfloor>x\<rfloor>) div 2 ^ 128))
                       (Number_of_bigint ((h2 * \<lfloor>x\<rfloor>) div 2 ^ 128))"
    by (rule Number_of_bigint_mono)
  moreover have "(h1 * \<lfloor>x\<rfloor>) sdiv 2 ^ 128 = (h1 * \<lfloor>x\<rfloor>) div 2 ^ 128"
    and "(h2 * \<lfloor>x\<rfloor>) sdiv 2 ^ 128 = (h2 * \<lfloor>x\<rfloor>) div 2 ^ 128"
    using prod by (simp_all add: sdiv_nonneg)
  ultimately show ?thesis
    using assms(1) by (simp add: hashKeyToShardIndex_Num)
qed

theorem hashKeyToShardIndex_monotone_witness:
  "(1::real) \<le> 8 \<and> (0::int) \<le> 0 \<and> (0::int) < 2 ^ 128 - 1 \<and> (2 ^ 128 - 1 :: int) \<le> 2 ^ 128 - 1
   \<and> (\<exists>i1 i2. hashKeyToShardIndex 0 (Num 8) = Inr i1
         \<and> hashKeyToShardIndex (2 ^ 128 - 1) (Num 8) = Inr i2 \<and> number_le i1 i2)"
  using hashKeyToShardIndex_monotone [of 8 0 "2 ^ 128 - 1"] by simp

text \<open>
  C9 (amended). Whenever \<open>Array.from\<close> builds the count array for an integer shard
  count \<open>k \<ge> 1\<close> (it never does for \<open>k\<close> of \<open>2^32\<close> or more), \<open>summarizeDistribution\<close>
  returns, for every array of indexes, \<open>totalKeys = length(indexes)\<close>, \<open>avg\<close> the double
  that the division \<open>totalKeys / k\<close> gives (the double nearest to the quotient, within
  the relative error \<open>2^(-53)\<close> of it), and \<open>maxCount\<close>, \<open>maxShard\<close> as the linear scan
  leaves them: \<open>maxShard\<close> is the lowest index whose count is the greatest, every earlier
  count being strictly smaller, and \<open>maxCount\<close> is that count. On shard count \<open>4\<close> and
  indexes \<open>[0,0,1,2,2,2]\<close> the counts are \<open>[2,1,3,0]\<close>, \<open>totalKeys\<close> is \<open>6\<close>, \<open>avg\<close> is
  \<open>1.5\<close>, \<open>maxCount\<close> is \<open>3\<close> at index \<open>2\<close>; on shard count \<open>3\<close> and the one index \<open>0\<close>,
  \<open>avg\<close> is the double \<open>6004799503160661 / 2^54\<close>, not the third.
\<close>

theorem summarizeDistribution_statistics:
  assumes "Array_from_zeros capacity (Num (of_int k)) = Inr zeros" "1 \<le> k"
    and "length idxs < 2 ^ 32"
  shows "(\<exists>r. summarizeDistribution capacity (Num (of_int k)) idxs = Inr r
           \<and> totalKeys r = length idxs
           \<and> avg r = roundDouble (real (length idxs) / real_of_int k)
           \<and> (\<exists>a. avg r = Num a
                \<and> \<bar>a - real (length idxs) / real_of_int k\<bar>
                     \<le> real (length idxs) / real_of_int k / 2 ^ 53)
           \<and> maxShard r < nat k
           \<and> maxCount r = Num (real (count_list idxs (int (maxShard r))))
           \<and> (\<forall>i < nat k. count_list idxs (int i) \<le> count_list idxs (int (maxShard r)))
           \<and> (\<forall>i < maxShard r. count_list idxs (int i) < count_list idxs (int (maxShard r))))
     \<and> (4 \<le> capacity \<longrightarrow>
          (\<exists>r. summarizeDistribution capacity (Num 4) [0, 0, 1, 2, 2, 2] = Inr r
             \<and> counts r = [Some (Num 2), Some (Num 1), Some (Num 3), Some (Num 0)]
             \<and> totalKeys r = 6 \<and> avg r = Num (3 / 2) \<and> maxCount r = Num 3 \<and> maxShard r = 2))
     \<and> (3 \<le> capacity \<longrightarrow>
          (\<exists>r. summarizeDistribution capacity (Num 3) [0] = Inr r
             \<and> totalKeys r = 1 \<and> avg r = Num (6004799503160661 / 2 ^ 54)))"
proof (intro conjI)
  define ns where "ns = map (\<lambda>i. count_list idxs (int i)) [0..<nat k]"
  have len: "length ns = nat k" by (simp add: ns_def)
  have nth: "ns ! i = count_list idxs (int i)" if "i < nat k" for i
    using that by (simp add: ns_def)
  have "(2::nat) ^ 32 \<le> 2 ^ 53" by (rule power_increasing) simp_all
  with assms(3) have l53: "length idxs < 2 ^ 53" by (rule less_le_trans)
  from summarize_int [OF assms(1) l53] obtain r where
    r: "summarizeDistribution capacity (Num (of_int k)) idxs = Inr r" "totalKeys r = length idxs"
      "counts r = countArray ns"
      "(maxCount r, maxShard r) =
          foldl (maxStep (counts r)) (NegInfinity, 0) [0..<length (counts r)]"
      "avg r = number_div (Num (real (length idxs))) (Num (of_int k))"
    unfolding ns_def by blast
  have "ns \<noteq> []" using len assms(2) by auto
  from max_scan [OF this] obtain j where j: "j < length ns"
    "foldl (maxStep (countArray ns)) (NegInfinity, 0) [0..<length ns] = (Num (real (ns ! j)), j)"
    "\<forall>i < length ns. ns ! i \<le> ns ! j" "\<forall>i < j. ns ! i < ns ! j"
    by blast
  from r(4) j(2) have m: "maxCount r = Num (real (ns ! j))" "maxShard r = j"
    by (simp_all add: r(3) length_countArray)
  have a: "avg r = roundDouble (real (length idxs) / real_of_int k)"
    using assms(2) by (simp add: r(5))
  have k32: "k < 2 ^ 32"
    using Array_from_zeros_int [OF assms(1)] by simp
  from quotient_near [OF assms(2) k32 assms(3)]
  have near: "\<exists>a. avg r = Num a
                \<and> \<bar>a - real (length idxs) / real_of_int k\<bar>
                     \<le> real (length idxs) / real_of_int k / 2 ^ 53"
    by (simp only: a)
  have "maxShard r < nat k"
    using j(1) m(2) len by simp
  moreover have "maxCount r = Num (real (count_list idxs (int (maxShard r))))"
    using m j(1) len by (simp add: nth)
  moreover have "\<forall>i < nat k. count_list idxs (int i) \<le> count_list idxs (int (maxShard r))"
    using j(1,3) m(2) len by (simp add: nth)
  moreover have "\<forall>i < maxShard r. count_list idxs (int i) < count_list idxs (int (maxShard r))"
    using j(1,4) m(2) len by (simp add: nth)
  ultimately show "\<exists>r. summarizeDistribution capacity (Num (of_int k)) idxs = Inr r
           \<and> totalKeys r = length idxs
           \<and> avg r = roundDouble (real (length idxs) / real_of_int k)
           \<and> (\<exists>a. avg r = Num a
                \<and> \<bar>a - real (length idxs) / real_of_int k\<bar>
                     \<le> real (length idxs) / real_of_int k / 2 ^ 53)
           \<and> maxShard r < nat k
           \<and> maxCount r = Num (real (count_list idxs (int (maxShard r))))
           \<and> (\<forall>i < nat k. count_list idxs (int i) \<le> count_list idxs (int (maxShard r)))
           \<and> (\<forall>i < maxShard r. count_list idxs (int i) < count_list idxs (int (maxShard r)))"
    using r(1,2) a near by blast
next
  show "4 \<le> capacity \<longrightarrow>
          (\<exists>r. summarizeDistribution capacity (Num 4) [0, 0, 1, 2, 2, 2] = Inr r
             \<and> counts r = [Some (Num 2), Some (Num 1), Some (Num 3), Some (Num 0)]
             \<and> totalKeys r = 6 \<and> avg r = Num (3 / 2) \<and> maxCount r = Num 3 \<and> maxShard r = 2)"
  proof
    assume cap: "4 \<le> capacity"
    have zeros: "Array_from_zeros capacity (Num (of_int 4)) = Inr (replicate (nat 4) (Some (Num 0)))"
      using cap by (intro Array_from_zeros_built) simp_all
    have l: "length [0, 0, 1, 2, 2, 2 :: int] < 2 ^ 53" by simp
    have up: "[0..<nat 4] = [0, 1, 2, 3]"
      by (simp add: upt_conv_Cons)
    have mx: "foldl (maxStep [Some (Num 2), Some (Num 1), Some (Num 3), Some (Num 0)])
        (NegInfinity, 0) [0..<4] = (Num 3, 2)"
      by (simp add: maxStep_def elemNumber_def number_gt_def upt_conv_Cons)
    from summarize_int [OF zeros l] obtain r where
      r: "summarizeDistribution capacity (Num (of_int 4)) [0, 0, 1, 2, 2, 2] = Inr r"
        "totalKeys r = length [0, 0, 1, 2, 2, 2 :: int]"
        "counts r = countArray (map (\<lambda>i. count_list [0, 0, 1, 2, 2, 2] (int i)) [0..<nat 4])"
        "(maxCount r, maxShard r) =
            foldl (maxStep (counts r)) (NegInfinity, 0) [0..<length (counts r)]"
        "avg r = number_div (Num (real (length [0, 0, 1, 2, 2, 2 :: int]))) (Num (of_int 4))"
      by blast
    have c: "counts r = [Some (Num 2), Some (Num 1), Some (Num 3), Some (Num 0)]"
      unfolding r(3) up by (simp add: countArray_def)
    have l4: "length [Some (Num 2), Some (Num 1), Some (Num 3), Some (Num 0)] = 4"
      by simp
    have "foldl (maxStep (counts r)) (NegInfinity, 0) [0..<length (counts r)] = (Num 3, 2)"
      unfolding c l4 by (rule mx)
    with r(4) have "(maxCount r, maxShard r) = (Num 3, 2)"
      by (rule trans)
    then have "maxCount r = Num 3" "maxShard r = 2" by simp_all
    moreover have "avg r = Num (3 / 2)"
      using r(5) by (simp add: roundDouble_three_halves)
    moreover have "totalKeys r = 6" using r(2) by simp
    ultimately show "\<exists>r. summarizeDistribution capacity (Num 4) [0, 0, 1, 2, 2, 2] = Inr r
             \<and> counts r = [Some (Num 2), Some (Num 1), Some (Num 3), Some (Num 0)]
             \<and> totalKeys r = 6 \<and> avg r = Num (3 / 2) \<and> maxCount r = Num 3 \<and> maxShard r = 2"
      using r(1) c by auto
  qed
next
  show "3 \<le> capacity \<longrightarrow>
          (\<exists>r. summarizeDistribution capacity (Num 3) [0] = Inr r
             \<and> totalKeys r = 1 \<and> avg r = Num (6004799503160661 / 2 ^ 54))"
  proof
    assume cap: "3 \<le> capacity"
    have zeros: "Array_from_zeros capacity (Num (of_int 3)) = Inr (replicate (nat 3) (Some (Num 0)))"
      using cap by (intro Array_from_zeros_built) simp_all
    from summarize_fields [OF zeros, of "[0]"] obtain r where
      r: "summarizeDistribution capacity (Num (of_int 3)) [0] = Inr r"
        "totalKeys r = length [0 :: int]"
        "avg r = number_div (Num (real (length [0 :: int]))) (Num (of_int 3))"
      by blast
    have "avg r = Num (6004799503160661 / 2 ^ 54)"
      using r(3) roundDouble_third by simp
    then show "\<exists>r. summarizeDistribution capacity (Num 3) [0] = Inr r
             \<and> totalKeys r = 1 \<and> avg r = Num (6004799503160661 / 2 ^ 54)"
      using r(1,2) by auto
  qed
qed

theorem summarizeDistribution_statistics_witness:
  "Array_from_zeros 1000 (Num 4) = Inr [Some (Num 0), Some (Num 0), Some (Num 0), Some (Num 0)]
   \<and> (1::int) \<le> 4 \<and> length [1, 0, 1, 0, 3 :: int] < 2 ^ 32 \<and> (4::nat) \<le> 1000
   \<and> (\<exists>r. summarizeDistribution 1000 (Num 4) [1, 0, 1, 0, 3] = Inr r
         \<and> totalKeys r = 5 \<and> avg r = Num (5 / 4))
   \<and> (\<exists>r. summarizeDistribution 1000 (Num 4) [0, 0, 1, 2, 2, 2] = Inr r
         \<and> counts r = [Some (Num 2), Some (Num 1), Some (Num 3), Some (Num 0)]
         \<and> totalKeys r = 6 \<and> avg r = Num (3 / 2) \<and> maxCount r = Num 3 \<and> maxShard r = 2)
   \<and> (\<exists>r. summarizeDistribution 1000 (Num 3) [0] = Inr r
         \<and> totalKeys r = 1 \<and> avg r = Num (6004799503160661 / 2 ^ 54))"
proof -
  have built: "Array_from_zeros 1000 (Num (of_int 4))
      = Inr [Some (Num 0), Some (Num 0), Some (Num 0), Some (Num 0)]"
    by (simp add: Array_from_zeros_def replicate_some)
  have small: "(1::int) \<le> 4" "length [1, 0, 1, 0, 3 :: int] < 2 ^ 32" by simp_all
  note inst = summarizeDistribution_statistics [OF built small]
  from inst obtain r where r: "summarizeDistribution 1000 (Num (of_int 4)) [1, 0, 1, 0, 3] = Inr r"
    "totalKeys r = length [1, 0, 1, 0, 3 :: int]"
    "avg r = roundDouble (real (length [1, 0, 1, 0, 3 :: int]) / real_of_int 4)"
    by blast
  have "roundDouble (5 / 4) = Num (5 / 4)"
    using roundDouble_representable [of 5 "- 2"] by (simp add: power_int_minus)
  then have "\<exists>r. summarizeDistribution 1000 (Num 4) [1, 0, 1, 0, 3] = Inr r
         \<and> totalKeys r = 5 \<and> avg r = Num (5 / 4)"
    using r by simp
  then show ?thesis
    using inst built by simp
qed

theorem summarizeDistribution_statistics_array_limit:
  "(1::real) \<le> 2 ^ 32
   \<and> summarizeDistribution (2 ^ 32 - 1) (Num (2 ^ 32)) [0, 0, 1, 2, 2, 2] = Inl RangeError"
  by (simp add: summarizeDistribution_def Array_from_zeros_def)

text \<open>
  C10 (amended). \<open>summarizeDistribution\<close> raises an error exactly when \<open>Array.from\<close>
  does not build the count array, and the error is then the RangeError of \<open>Array.from\<close>:
  always for the shard count \<open>Infinity\<close> and the finite counts of \<open>2^32\<close> or more, and for
  a shorter length when the runtime refuses it. Once the array is built a summary is
  returned, with \<open>totalKeys = length(indexes)\<close>, for every list of indexes. For a shard
  count that is \<open>0\<close>, negative, \<open>-Infinity\<close> or NaN the array is empty and always built,
  and the summary has \<open>counts = []\<close>, \<open>maxCount = -Infinity\<close> and \<open>maxShard = 0\<close>.
\<close>

theorem summarizeDistribution_total:
  "((\<exists>r. summarizeDistribution capacity s idxs = Inr r)
      \<longleftrightarrow> (\<exists>zeros. Array_from_zeros capacity s = Inr zeros))
   \<and> (\<forall>e. summarizeDistribution capacity s idxs = Inl e
      \<longleftrightarrow> Array_from_zeros capacity s = Inl e)
   \<and> (\<forall>e. summarizeDistribution capacity s idxs = Inl e \<longrightarrow> e = RangeError)
   \<and> (s = Infinity \<or> (\<exists>x. s = Num x \<and> 2 ^ 32 \<le> x)
      \<longrightarrow> summarizeDistribution capacity s idxs = Inl RangeError)
   \<and> (\<forall>r. summarizeDistribution capacity s idxs = Inr r \<longrightarrow> totalKeys r = length idxs)
   \<and> (s = NaN \<or> s = NegInfinity \<or> (\<exists>x. s = Num x \<and> x \<le> 0) \<longrightarrow>
        (\<exists>r. summarizeDistribution capacity s idxs = Inr r \<and> counts r = []
           \<and> totalKeys r = length idxs \<and> maxCount r = NegInfinity \<and> maxShard r = 0))"
proof (intro conjI)
  have split: "(\<exists>zeros. Array_from_zeros capacity s = Inr zeros)
      \<or> Array_from_zeros capacity s = Inl RangeError"
    by (simp add: Array_from_zeros_def Let_def)
  show "s = NaN \<or> s = NegInfinity \<or> (\<exists>x. s = Num x \<and> x \<le> 0) \<longrightarrow>
        (\<exists>r. summarizeDistribution capacity s idxs = Inr r \<and> counts r = []
           \<and> totalKeys r = length idxs \<and> maxCount r = NegInfinity \<and> maxShard r = 0)"
    using summarize_empty by blast
  show "\<forall>r. summarizeDistribution capacity s idxs = Inr r \<longrightarrow> totalKeys r = length idxs"
    by (auto simp add: summarizeDistribution_def Let_def split: sum.splits prod.splits)
  show "s = Infinity \<or> (\<exists>x. s = Num x \<and> 2 ^ 32 \<le> x)
      \<longrightarrow> summarizeDistribution capacity s idxs = Inl RangeError"
    using Array_from_zeros_limit [of s capacity] summarize_error [of capacity s RangeError idxs]
    by blast
  show "(\<exists>r. summarizeDistribution capacity s idxs = Inr r)
      \<longleftrightarrow> (\<exists>zeros. Array_from_zeros capacity s = Inr zeros)"
  proof
    assume "\<exists>r. summarizeDistribution capacity s idxs = Inr r"
    then show "\<exists>zeros. Array_from_zeros capacity s = Inr zeros"
      by (cases "Array_from_zeros capacity s") (auto simp add: summarize_error)
  next
    assume "\<exists>zeros. Array_from_zeros capacity s = Inr zeros"
    then obtain zeros where "Array_from_zeros capacity s = Inr zeros" by blast
    from summarize_fields [OF this, of idxs]
    show "\<exists>r. summarizeDistribution capacity s idxs = Inr r" by blast
  qed
  show "\<forall>e. summarizeDistribution capacity s idxs = Inl e
      \<longleftrightarrow> Array_from_zeros capacity s = Inl e"
  proof (cases "Array_from_zeros capacity s")
    case (Inl e')
    then show ?thesis by (simp add: summarize_error)
  next
    case (Inr zeros)
    from summarize_fields [OF this, of idxs] Inr show ?thesis by auto
  qed
  show "\<forall>e. summarizeDistribution capacity s idxs = Inl e \<longrightarrow> e = RangeError"
  proof (cases "Array_from_zeros capacity s")
    case (Inl e')
    with split have "e' = RangeError" by simp
    with Inl show ?thesis by (simp add: summarize_error)
  next
    case (Inr zeros)
    from summarize_fields [OF this, of idxs] show ?thesis by auto
  qed
qed

theorem summarizeDistribution_total_witness:
  "(\<exists>r. summarizeDistribution 0 (Num 0) [0, 5] = Inr r \<and> counts r = []
        \<and> totalKeys r = 2 \<and> maxCount r = NegInfinity \<and> maxShard r = 0)
   \<and> (\<exists>r. summarizeDistribution 0 (Num (- 3)) [0, 5] = Inr r \<and> counts r = []
        \<and> totalKeys r = 2)
   \<and> Array_from_zeros 1000 (Num 3) = Inr [Some (Num 0), Some (Num 0), Some (Num 0)]
   \<and> (\<exists>r. summarizeDistribution 1000 (Num 3) [0, 5] = Inr r \<and> totalKeys r = 2)
   \<and> Array_from_zeros 2 (Num 3) = Inl RangeError
   \<and> summarizeDistribution 2 (Num 3) [0, 5] = Inl RangeError"
proof -
  have a: "Array_from_zeros 1000 (Num 3) = Inr [Some (Num 0), Some (Num 0), Some (Num 0)]"
    by (simp add: Array_from_zeros_def replicate_some)
  have b: "Array_from_zeros 2 (Num 3) = Inl RangeError"
    by (simp add: Array_from_zeros_def)
  show ?thesis
    using summarizeDistribution_total [of 0 "Num 0" "[0, 5]"]
      summarizeDistribution_total [of 0 "Num (- 3)" "[0, 5]"]
      summarizeDistribution_total [of 1000 "Num 3" "[0, 5]"]
      summarizeDistribution_total [of 2 "Num 3" "[0, 5]"] a b
    by auto
qed

theorem summarizeDistribution_infinite_count:
  "summarizeDistribution (2 ^ 32 - 1) Infinity [] = Inl RangeError
   \<and> summarizeDistribution (2 ^ 32 - 1) (Num (2 ^ 32)) [] = Inl RangeError"
  by (simp add: summarizeDistribution_def Array_from_zeros_def)

end
